theory Spec2Isabelle
  imports Complex_Main
begin

section \<open>Grover's algorithm: the circuit builders of Concept/2Q.ipynb\<close>

text \<open>
  The notebook defines three circuit builders, \<open>phase_oracle\<close>, \<open>diffuser\<close> and
  \<open>Grover\<close> (with the variant \<open>Grover_Step_I\<close> that leaves the diffuser and the
  measurement out), on top of a quantum-circuit library. A circuit is modelled as the
  data the library records: register sizes, a name and the ordered list of
  instructions. Python exceptions are values of the type \<open>error\<close>.
\<close>

subsection \<open>Data model\<close>

datatype error = IndexError | ZeroDivisionError

type_synonym matrix = "complex list list"

text \<open>
  Modelled from the spec: the quantum-circuit library the notebook imports is not among
  the sources. Its circuit is, in the specification's words, an ordered sequence of
  transform applications and a terminal measurement step over the register.

  \<open>HGate q\<close> is one Hadamard gate on qubit \<open>q\<close>; \<open>UnitaryGate M qs\<close> is the operator
  with matrix \<open>M\<close> on the qubits \<open>qs\<close>; \<open>CircuitInstr c qs\<close> is a whole circuit appended
  as one instruction on the qubits \<open>qs\<close>; \<open>Measure q c\<close> measures qubit \<open>q\<close> into the
  classical bit \<open>c\<close>. A circuit name of \<open>None\<close> stands for the name the library
  picks when the caller gives none.
\<close>

datatype circuit =
  QuantumCircuit (num_qubits: nat) (num_clbits: nat) (name: "string option") (data: "instr list")
and instr =
    HGate nat
  | UnitaryGate matrix "nat list"
  | CircuitInstr circuit "nat list"
  | Measure nat nat

subsection \<open>The library's circuit methods\<close>

text \<open>
  Modelled from the spec: the methods of the library's circuit class that the notebook
  calls. \<open>qc.h(range(n))\<close> appends one Hadamard gate per listed qubit, in the order of the
  list; \<open>qc.measure(qs, cs)\<close> appends one measurement per pair of the two lists;
  \<open>qc.unitary(Operator(M), qs)\<close> and \<open>qc.append(sub, qs)\<close> append one instruction.
  The library refuses an empty list of qubits; the builders pass \<open>range(n)\<close>, so they
  are described here for \<open>n \<ge> 1\<close>.
\<close>

definition add_instrs :: "circuit \<Rightarrow> instr list \<Rightarrow> circuit" where
  "add_instrs qc is =
     QuantumCircuit (num_qubits qc) (num_clbits qc) (name qc) (data qc @ is)"

definition qc_h :: "circuit \<Rightarrow> nat list \<Rightarrow> circuit" where
  "qc_h qc qs = add_instrs qc (map HGate qs)"

definition qc_unitary :: "circuit \<Rightarrow> matrix \<Rightarrow> nat list \<Rightarrow> circuit" where
  "qc_unitary qc M qs = add_instrs qc [UnitaryGate M qs]"

definition qc_append :: "circuit \<Rightarrow> circuit \<Rightarrow> nat list \<Rightarrow> circuit" where
  "qc_append qc sub qs = add_instrs qc [CircuitInstr sub qs]"

definition qc_measure :: "circuit \<Rightarrow> nat list \<Rightarrow> nat list \<Rightarrow> circuit" where
  "qc_measure qc qs cs = add_instrs qc (map (\<lambda>(q, c). Measure q c) (zip qs cs))"

subsection \<open>phase\_oracle\<close>

text \<open>\<open>np.identity(N)\<close>: the \<open>N \<times> N\<close> matrix with ones on the diagonal.\<close>

definition identity :: "nat \<Rightarrow> matrix" where
  "identity N = map (\<lambda>i. map (\<lambda>j. if i = j then 1 else 0) [0..<N]) [0..<N]"

text \<open>
  \<open>oracle_matrix[i, i] = -1\<close>. The array library counts a negative index from the end
  and raises \<open>IndexError\<close> for an index outside \<open>[-N, N)\<close>.
\<close>

definition set_diag :: "matrix \<Rightarrow> int \<Rightarrow> error + matrix" where
  "set_diag M idx =
     (let N = int (length M);
          j = (if idx < 0 then idx + N else idx)
      in if 0 \<le> j \<and> j < N
         then Inr (M[nat j := (M ! nat j)[nat j := - 1]])
         else Inl IndexError)"

text \<open>The loop \<open>for index_to_mark in indices_to_mark\<close>.\<close>

fun mark_loop :: "matrix \<Rightarrow> int list \<Rightarrow> error + matrix" where
  "mark_loop M [] = Inr M"
| "mark_loop M (i # is) =
     (case set_diag M i of
        Inl e \<Rightarrow> Inl e
      | Inr M' \<Rightarrow> mark_loop M' is)"

definition oracle_matrix :: "nat \<Rightarrow> int list \<Rightarrow> error + matrix" where
  "oracle_matrix n indices_to_mark = mark_loop (identity (2 ^ n)) indices_to_mark"

text \<open>
  \<open>phase_oracle(n, indices_to_mark, name='Oracle')\<close>. The register size is a natural
  number: the library refuses a negative one.
\<close>

definition phase_oracle :: "nat \<Rightarrow> int list \<Rightarrow> string \<Rightarrow> error + circuit" where
  "phase_oracle n indices_to_mark nm =
     (let qc = QuantumCircuit n 0 (Some nm) []
      in case oracle_matrix n indices_to_mark of
           Inl e \<Rightarrow> Inl e
         | Inr M \<Rightarrow> Inr (qc_unitary qc M [0..<n]))"

subsection \<open>diffuser\<close>

definition diffuser :: "nat \<Rightarrow> error + circuit" where
  "diffuser n =
     (let qc = QuantumCircuit n 0 (Some ''Diffuser'') [];
          qc1 = qc_h qc [0..<n]
      in case phase_oracle n [0] ''Oracle'' of
           Inl e \<Rightarrow> Inl e
         | Inr orc \<Rightarrow> Inr (qc_h (qc_append qc1 orc [0..<n]) [0..<n]))"

subsection \<open>Grover\<close>

text \<open>
  \<open>int(np.floor(np.pi/4*np.sqrt(2**n/k)))\<close> with \<open>k = len(indices_of_marked_elements)\<close>.
  The quotient \<open>2**n/k\<close> is Python's division of two integers, which raises
  \<open>ZeroDivisionError\<close> for \<open>k = 0\<close>. The floating-point arithmetic is modelled by the
  real numbers.
\<close>

definition round_count :: "nat \<Rightarrow> nat \<Rightarrow> error + int" where
  "round_count n k =
     (if k = 0 then Inl ZeroDivisionError
      else Inr \<lfloor>pi / 4 * sqrt (2 ^ n / real k)\<rfloor>)"

text \<open>
  The loop \<open>for _ in range(r)\<close> of \<open>Grover\<close>; each pass builds the oracle for the
  caller's indices and the diffuser and appends both.
\<close>

fun rounds_loop :: "nat \<Rightarrow> nat \<Rightarrow> int list \<Rightarrow> circuit \<Rightarrow> error + circuit" where
  "rounds_loop 0 n marked qc = Inr qc"
| "rounds_loop (Suc k) n marked qc =
     (case phase_oracle n marked ''Oracle'' of
        Inl e \<Rightarrow> Inl e
      | Inr orc \<Rightarrow>
          (case diffuser n of
             Inl e \<Rightarrow> Inl e
           | Inr dif \<Rightarrow>
               rounds_loop k n marked (qc_append (qc_append qc orc [0..<n]) dif [0..<n])))"

text \<open>
  \<open>Grover(n, indices_of_marked_elements, r=0)\<close>. \<open>range(r)\<close> is empty for a negative
  \<open>r\<close>, so the loop runs \<open>nat r\<close> times. The line the function prints in the
  \<open>r == 0\<close> branch is not part of the model.
\<close>

definition Grover :: "nat \<Rightarrow> int list \<Rightarrow> int \<Rightarrow> error + circuit" where
  "Grover n marked r0 =
     (let qc = QuantumCircuit n n None []
      in case (if r0 = 0 then round_count n (length marked) else Inr r0) of
           Inl e \<Rightarrow> Inl e
         | Inr r \<Rightarrow>
             (case rounds_loop (nat r) n marked (qc_h qc [0..<n]) of
                Inl e \<Rightarrow> Inl e
              | Inr qc' \<Rightarrow> Inr (qc_measure qc' [0..<n] [0..<n])))"

text \<open>
  A call that leaves the third argument out takes the default \<open>r=0\<close>.
\<close>

definition Grover_call :: "nat \<Rightarrow> int list \<Rightarrow> int option \<Rightarrow> error + circuit" where
  "Grover_call n marked r_arg =
     Grover n marked (case r_arg of None \<Rightarrow> 0 | Some r \<Rightarrow> r)"

text \<open>
  \<open>Grover_Step_I\<close>: the same function on a circuit without classical bits, with the
  diffuser and the measurement commented out.
\<close>

fun rounds_loop_I :: "nat \<Rightarrow> nat \<Rightarrow> int list \<Rightarrow> circuit \<Rightarrow> error + circuit" where
  "rounds_loop_I 0 n marked qc = Inr qc"
| "rounds_loop_I (Suc k) n marked qc =
     (case phase_oracle n marked ''Oracle'' of
        Inl e \<Rightarrow> Inl e
      | Inr orc \<Rightarrow> rounds_loop_I k n marked (qc_append qc orc [0..<n]))"

definition Grover_Step_I :: "nat \<Rightarrow> int list \<Rightarrow> int \<Rightarrow> error + circuit" where
  "Grover_Step_I n marked r0 =
     (let qc = QuantumCircuit n 0 None []
      in case (if r0 = 0 then round_count n (length marked) else Inr r0) of
           Inl e \<Rightarrow> Inl e
         | Inr r \<Rightarrow> rounds_loop_I (nat r) n marked (qc_h qc [0..<n]))"

section \<open>Matrices and the simulator\<close>

subsection \<open>Unitary matrices\<close>

text \<open>The conjugate transpose and the product of square matrices given as lists of rows.\<close>

definition dagger :: "matrix \<Rightarrow> matrix" where
  "dagger M = map (\<lambda>j. map (\<lambda>i. cnj (M ! i ! j)) [0..<length M]) [0..<length M]"

definition mat_mul :: "matrix \<Rightarrow> matrix \<Rightarrow> matrix" where
  "mat_mul A B =
     map (\<lambda>i. map (\<lambda>j. sum_list (map (\<lambda>k. A ! i ! k * B ! k ! j) [0..<length B]))
       [0..<length B]) [0..<length A]"

definition is_unitary :: "matrix \<Rightarrow> bool" where
  "is_unitary M \<longleftrightarrow>
     mat_mul (dagger M) M = identity (length M) \<and> mat_mul M (dagger M) = identity (length M)"

text \<open>
  The matrix the specification describes for the oracle: the identity with \<open>-1\<close> at
  the diagonal positions listed in \<open>marked\<close>.
\<close>

definition signed_identity :: "nat \<Rightarrow> int list \<Rightarrow> matrix" where
  "signed_identity N marked =
     map (\<lambda>i. map (\<lambda>j. if i = j then (if int i \<in> set marked then - 1 else 1) else 0) [0..<N])
       [0..<N]"

subsection \<open>Executing a circuit\<close>

text \<open>
  Modelled from the spec: the notebook hands its circuits to the library's simulators,
  which are not among the sources: a statevector backend that returns the exact complex
  amplitude vector, a sampling backend that returns the histogram of the measured
  bitstrings over the requested number of shots, and the application of an arbitrary
  unitary matrix. What follows is the standard semantics of these, over exact complex
  amplitudes: the state of \<open>n\<close> qubits is a list of \<open>2 ^ n\<close> amplitudes, the amplitude
  of the basis state \<open>i\<close> at position \<open>i\<close>, qubit \<open>q\<close> being bit \<open>q\<close> of \<open>i\<close>.

  A Hadamard gate on qubit \<open>q\<close> replaces the amplitudes \<open>(a, b)\<close> of each pair of basis
  states that differ in bit \<open>q\<close> only by \<open>((a + b) / \<surd>2, (a - b) / \<surd>2)\<close>.
\<close>

definition hc :: complex where
  "hc = complex_of_real (1 / sqrt 2)"

definition h_gate :: "nat \<Rightarrow> complex list \<Rightarrow> complex list" where
  "h_gate q psi =
     map (\<lambda>i. if odd (i div 2 ^ q)
               then hc * (psi ! (i - 2 ^ q) - psi ! i)
               else hc * (psi ! i + psi ! (i + 2 ^ q)))
       [0..<length psi]"

text \<open>An operator on the whole register, qubits in their order, is a matrix-vector product.\<close>

definition mat_vec :: "matrix \<Rightarrow> complex list \<Rightarrow> complex list" where
  "mat_vec M psi =
     map (\<lambda>i. sum_list (map (\<lambda>j. M ! i ! j * psi ! j) [0..<length psi])) [0..<length M]"

text \<open>
  Measuring qubit \<open>q\<close>: \<open>prob q b psi\<close> is the probability of the outcome \<open>b\<close>. The
  outcome is drawn with a number \<open>u\<close>, uniform in \<open>[0, 1)\<close>: it is \<open>0\<close> when \<open>u\<close> is below
  the probability of \<open>0\<close>. The state is projected on the outcome and normalised.
\<close>

definition prob :: "nat \<Rightarrow> bool \<Rightarrow> complex list \<Rightarrow> real" where
  "prob q b psi =
     sum_list (map (\<lambda>i. if odd (i div 2 ^ q) = b then (cmod (psi ! i))\<^sup>2 else 0)
       [0..<length psi])"

definition measure_qubit :: "nat \<Rightarrow> complex list \<Rightarrow> real \<Rightarrow> bool \<times> complex list" where
  "measure_qubit q psi u =
     (let b = \<not> (u < prob q False psi);
          p = prob q b psi
      in (b, map (\<lambda>i. if odd (i div 2 ^ q) = b then psi ! i / complex_of_real (sqrt p) else 0)
               [0..<length psi]))"

text \<open>
  The state of one run: the amplitudes, the classical bits and the random numbers not
  yet used. \<open>exec_instr n\<close> executes one instruction on \<open>n\<close> qubits. The notebook
  places every operator and every appended circuit on the whole register
  \<open>range(n)\<close>; any other placement is outside this model and gives \<open>None\<close>, as does a
  qubit or bit out of range, a matrix of the wrong size, or a missing random number.
\<close>

record sim =
  amps :: "complex list"
  clbits :: "bool list"
  rand :: "real list"

fun exec_instr :: "nat \<Rightarrow> instr \<Rightarrow> sim \<Rightarrow> sim option"
  and exec_list :: "nat \<Rightarrow> instr list \<Rightarrow> sim \<Rightarrow> sim option" where
  "exec_instr n (HGate q) s =
     (if q < n \<and> length (amps s) = 2 ^ n
      then Some (s\<lparr>amps := h_gate q (amps s)\<rparr>) else None)"
| "exec_instr n (UnitaryGate M qs) s =
     (if qs = [0..<n] \<and> length (amps s) = 2 ^ n \<and> length M = 2 ^ n \<and>
         list_all (\<lambda>row. length row = 2 ^ n) M
      then Some (s\<lparr>amps := mat_vec M (amps s)\<rparr>) else None)"
| "exec_instr n (CircuitInstr (QuantumCircuit nq nc nm is) qs) s =
     (if qs = [0..<n] \<and> nq = n \<and> nc = 0 then exec_list n is s else None)"
| "exec_instr n (Measure q c) s =
     (if q < n \<and> c < length (clbits s) \<and> length (amps s) = 2 ^ n
      then (case rand s of
              [] \<Rightarrow> None
            | u # us \<Rightarrow>
                (case measure_qubit q (amps s) u of
                   (b, psi') \<Rightarrow> Some \<lparr>amps = psi', clbits = (clbits s)[c := b], rand = us\<rparr>))
      else None)"
| "exec_list n [] s = Some s"
| "exec_list n (i # is) s =
     (case exec_instr n i s of
        None \<Rightarrow> None
      | Some s' \<Rightarrow> exec_list n is s')"

text \<open>A run starts in the basis state \<open>0\<close> with all classical bits cleared.\<close>

definition initial_state :: "nat \<Rightarrow> complex list" where
  "initial_state n = 1 # replicate (2 ^ n - 1) 0"

definition run_circuit :: "circuit \<Rightarrow> real list \<Rightarrow> sim option" where
  "run_circuit qc us =
     exec_list (num_qubits qc) (data qc)
       \<lparr>amps = initial_state (num_qubits qc), clbits = replicate (num_clbits qc) False, rand = us\<rparr>"

text \<open>The statevector backend returns the final amplitudes of one run.\<close>

definition statevector :: "circuit \<Rightarrow> real list \<Rightarrow> complex list option" where
  "statevector qc us = map_option amps (run_circuit qc us)"

definition probabilities :: "complex list \<Rightarrow> real list" where
  "probabilities psi = map (\<lambda>a. (cmod a)\<^sup>2) psi"

text \<open>
  The sampling backend runs the circuit once per shot and reports the classical bits
  as a string, the highest bit first; \<open>get_counts\<close> is the histogram of these strings
  and \<open>index_of_bitstring\<close> reads a string back as the index it encodes.
\<close>

definition bitstring :: "bool list \<Rightarrow> string" where
  "bitstring bs = rev (map (\<lambda>b. if b then CHR ''1'' else CHR ''0'') bs)"

definition index_of_bitstring :: "string \<Rightarrow> nat" where
  "index_of_bitstring key = fold (\<lambda>c acc. 2 * acc + (if c = CHR ''1'' then 1 else 0)) key 0"

definition shot :: "circuit \<Rightarrow> real list \<Rightarrow> string option" where
  "shot qc us = map_option (\<lambda>s. bitstring (clbits s)) (run_circuit qc us)"

definition execute :: "circuit \<Rightarrow> real list list \<Rightarrow> string option list" where
  "execute qc uss = map (shot qc) uss"

definition get_counts :: "string option list \<Rightarrow> string \<Rightarrow> nat" where
  "get_counts results key = count_list results (Some key)"

text \<open>
  The transform of a circuit without measurements on an arbitrary amplitude vector,
  and the mean of a vector.
\<close>

definition apply_circuit :: "circuit \<Rightarrow> complex list \<Rightarrow> complex list option" where
  "apply_circuit qc psi =
     map_option amps
       (exec_list (num_qubits qc) (data qc)
          \<lparr>amps = psi, clbits = replicate (num_clbits qc) False, rand = []\<rparr>)"

definition mean :: "complex list \<Rightarrow> complex" where
  "mean psi = sum_list psi / of_nat (length psi)"

text \<open>Hadamard gates on the qubits \<open>0, \<dots>, m - 1\<close>, in this order.\<close>

definition h_all :: "nat \<Rightarrow> complex list \<Rightarrow> complex list" where
  "h_all m psi = fold h_gate [0..<m] psi"

subsection \<open>The circuits of the notebook's run: two qubits, index 1 marked\<close>

definition oracle_2_1 :: circuit where
  "oracle_2_1 = QuantumCircuit 2 0 (Some ''Oracle'')
     [UnitaryGate [[1, 0, 0, 0], [0, - 1, 0, 0], [0, 0, 1, 0], [0, 0, 0, 1]] [0, 1]]"

definition diffuser_2 :: circuit where
  "diffuser_2 = QuantumCircuit 2 0 (Some ''Diffuser'')
     [HGate 0, HGate 1,
      CircuitInstr (QuantumCircuit 2 0 (Some ''Oracle'')
        [UnitaryGate [[- 1, 0, 0, 0], [0, 1, 0, 0], [0, 0, 1, 0], [0, 0, 0, 1]] [0, 1]]) [0, 1],
      HGate 0, HGate 1]"

definition grover_2_1_1 :: circuit where
  "grover_2_1_1 = QuantumCircuit 2 2 None
    [HGate 0, HGate 1, CircuitInstr oracle_2_1 [0, 1], CircuitInstr diffuser_2 [0, 1],
     Measure 0 0, Measure 1 1]"

section \<open>Auxiliary facts\<close>

subsection \<open>The builders return circuits\<close>

lemma add_instrs_add_instrs: "add_instrs (add_instrs qc xs) ys = add_instrs qc (xs @ ys)"
  by (simp add: add_instrs_def)

lemma length_identity: "length (identity N) = N"
  by (simp add: identity_def)

lemma set_diag_ok:
  assumes "0 \<le> i" "i < int (length M)"
  shows "set_diag M i = Inr (M[nat i := (M ! nat i)[nat i := - 1]])"
  using assms by (simp add: set_diag_def Let_def)

lemma mark_loop_ok:
  assumes "\<forall>i\<in>set marked. 0 \<le> i \<and> i < int (length M)"
  shows "\<exists>M'. mark_loop M marked = Inr M' \<and> length M' = length M"
  using assms
proof (induction marked arbitrary: M)
  case Nil
  then show ?case by simp
next
  case (Cons i marked)
  let ?M1 = "M[nat i := (M ! nat i)[nat i := - 1]]"
  have s: "set_diag M i = Inr ?M1" using Cons.prems by (simp add: set_diag_ok)
  have "\<forall>i\<in>set marked. 0 \<le> i \<and> i < int (length ?M1)" using Cons.prems by simp
  from Cons.IH[OF this] show ?case using s by simp
qed

lemma oracle_matrix_ok:
  assumes "\<forall>i\<in>set marked. 0 \<le> i \<and> i < 2 ^ n"
  shows "\<exists>M. oracle_matrix n marked = Inr M \<and> length M = 2 ^ n"
proof -
  have "\<forall>i\<in>set marked. 0 \<le> i \<and> i < int (length (identity (2 ^ n)))"
    using assms by (simp add: length_identity)
  from mark_loop_ok[OF this] show ?thesis
    by (simp add: oracle_matrix_def length_identity)
qed

lemma phase_oracle_ok:
  assumes "\<forall>i\<in>set marked. 0 \<le> i \<and> i < 2 ^ n"
  shows "\<exists>M. oracle_matrix n marked = Inr M \<and>
     phase_oracle n marked nm = Inr (QuantumCircuit n 0 (Some nm) [UnitaryGate M [0..<n]])"
proof -
  from oracle_matrix_ok[OF assms] obtain M where "oracle_matrix n marked = Inr M" by blast
  then show ?thesis by (simp add: phase_oracle_def qc_unitary_def add_instrs_def)
qed

lemma diffuser_ok:
  "\<exists>M. oracle_matrix n [0] = Inr M \<and>
     diffuser n = Inr (QuantumCircuit n 0 (Some ''Diffuser'')
       (map HGate [0..<n] @
        [CircuitInstr (QuantumCircuit n 0 (Some ''Oracle'') [UnitaryGate M [0..<n]]) [0..<n]] @
        map HGate [0..<n]))"
proof -
  have "\<forall>i\<in>set [0::int]. 0 \<le> i \<and> i < 2 ^ n" by simp
  from phase_oracle_ok[OF this, of "''Oracle''"] obtain M where
    "oracle_matrix n [0] = Inr M"
    "phase_oracle n [0] ''Oracle'' = Inr (QuantumCircuit n 0 (Some ''Oracle'') [UnitaryGate M [0..<n]])"
    by blast
  then show ?thesis
    by (simp add: diffuser_def qc_h_def qc_append_def add_instrs_def)
qed

lemma rounds_loop_ok:
  assumes "phase_oracle n marked ''Oracle'' = Inr orc" "diffuser n = Inr dif"
  shows "rounds_loop k n marked qc =
     Inr (add_instrs qc (concat (replicate k [CircuitInstr orc [0..<n], CircuitInstr dif [0..<n]])))"
proof (induction k arbitrary: qc)
  case 0
  show ?case by (cases qc) (simp add: add_instrs_def)
next
  case (Suc k)
  show ?case using assms
    by (simp add: Suc.IH qc_append_def add_instrs_add_instrs)
qed

lemma measure_all: "map (\<lambda>(q, c). Measure q c) (zip [0..<n] [0..<n]) = map (\<lambda>q. Measure q q) [0..<n]"
  by (simp add: zip_same_conv_map)

subsection \<open>The matrix of the oracle\<close>

lemma set_diag_entry:
  assumes "length M = N" "\<forall>i<N. length (M ! i) = N" "0 \<le> i" "i < int N" "a < N" "b < N"
  shows "(M[nat i := (M ! nat i)[nat i := - 1]]) ! a ! b =
         (if a = nat i \<and> b = nat i then - 1 else M ! a ! b)"
  using assms by (auto simp: nth_list_update)

lemma mark_loop_entries:
  assumes "length M = N" "\<forall>i<N. length (M ! i) = N"
    and "\<forall>i\<in>set marked. 0 \<le> i \<and> i < int N"
  shows "\<exists>M'. mark_loop M marked = Inr M' \<and> length M' = N \<and> (\<forall>i<N. length (M' ! i) = N) \<and>
     (\<forall>i<N. \<forall>j<N. M' ! i ! j = (if i = j \<and> int i \<in> set marked then - 1 else M ! i ! j))"
  using assms
proof (induction marked arbitrary: M)
  case Nil
  then show ?case by simp
next
  case (Cons x marked)
  let ?M1 = "M[nat x := (M ! nat x)[nat x := - 1]]"
  have x: "0 \<le> x" "x < int N" using Cons.prems(3) by simp_all
  have s: "set_diag M x = Inr ?M1" using x Cons.prems(1) by (simp add: set_diag_ok)
  have l1: "length ?M1 = N" using Cons.prems(1) by simp
  have l2: "\<forall>i<N. length (?M1 ! i) = N"
    using Cons.prems(1,2) x by (auto simp: nth_list_update)
  have r: "\<forall>i\<in>set marked. 0 \<le> i \<and> i < int N" using Cons.prems(3) by simp
  from Cons.IH[OF l1 l2 r] obtain M' where M':
    "mark_loop ?M1 marked = Inr M'" "length M' = N" "\<forall>i<N. length (M' ! i) = N"
    "\<forall>i<N. \<forall>j<N. M' ! i ! j = (if i = j \<and> int i \<in> set marked then - 1 else ?M1 ! i ! j)"
    by blast
  have e: "\<forall>i<N. \<forall>j<N. M' ! i ! j = (if i = j \<and> int i \<in> set (x # marked) then - 1 else M ! i ! j)"
  proof (intro allI impI)
    fix i j assume ij: "i < N" "j < N"
    have "?M1 ! i ! j = (if i = nat x \<and> j = nat x then - 1 else M ! i ! j)"
      using set_diag_entry[OF Cons.prems(1,2) x ij] .
    then show "M' ! i ! j = (if i = j \<and> int i \<in> set (x # marked) then - 1 else M ! i ! j)"
      using M'(4) ij x by auto
  qed
  show ?case using s M'(1,2,3) e by simp
qed

lemma identity_entry: "i < N \<Longrightarrow> j < N \<Longrightarrow> identity N ! i ! j = (if i = j then 1 else 0)"
  by (simp add: identity_def)

lemma identity_row: "i < N \<Longrightarrow> length (identity N ! i) = N"
  by (simp add: identity_def)

lemma oracle_matrix_closed:
  assumes "\<forall>i\<in>set marked. 0 \<le> i \<and> i < 2 ^ n"
  shows "oracle_matrix n marked = Inr (signed_identity (2 ^ n) marked)"
proof -
  let ?N = "2 ^ n :: nat"
  have r: "\<forall>i\<in>set marked. 0 \<le> i \<and> i < int ?N" using assms by simp
  have "\<forall>i<?N. length (identity ?N ! i) = ?N" by (simp add: identity_row)
  from mark_loop_entries[OF length_identity this r] obtain M' where M':
    "mark_loop (identity ?N) marked = Inr M'" "length M' = ?N" "\<forall>i<?N. length (M' ! i) = ?N"
    "\<forall>i<?N. \<forall>j<?N. M' ! i ! j = (if i = j \<and> int i \<in> set marked then - 1 else identity ?N ! i ! j)"
    by blast
  have "M' = signed_identity ?N marked"
  proof (rule nth_equalityI)
    show "length M' = length (signed_identity ?N marked)"
      using M'(2) by (simp add: signed_identity_def)
  next
    fix i assume "i < length M'"
    then have i: "i < ?N" using M'(2) by simp
    show "M' ! i = signed_identity ?N marked ! i"
    proof (rule nth_equalityI)
      show "length (M' ! i) = length (signed_identity ?N marked ! i)"
        using M'(3) i by (simp add: signed_identity_def)
    next
      fix j assume "j < length (M' ! i)"
      then have j: "j < ?N" using M'(3) i by simp
      show "M' ! i ! j = signed_identity ?N marked ! i ! j"
        using M'(4) i j by (simp add: signed_identity_def identity_entry)
    qed
  qed
  then show ?thesis using M'(1) by (simp add: oracle_matrix_def)
qed

lemma sum_list_upt_delta:
  "i < N \<Longrightarrow> sum_list (map (\<lambda>k. if k = i then f k else (0::complex)) [0..<N]) = f i"
  by (simp add: interv_sum_list_conv_sum_set_nat)

lemma signed_identity_entry:
  "i < N \<Longrightarrow> j < N \<Longrightarrow>
   signed_identity N marked ! i ! j = (if i = j then (if int i \<in> set marked then - 1 else 1) else 0)"
  by (simp add: signed_identity_def)

lemma length_signed_identity: "length (signed_identity N marked) = N"
  by (simp add: signed_identity_def)

lemma signed_identity_row: "i < N \<Longrightarrow> length (signed_identity N marked ! i) = N"
  by (simp add: signed_identity_def)

lemma length_dagger: "length (dagger M) = length M"
  by (simp add: dagger_def)

lemma signed_identity_unitary: "is_unitary (signed_identity N marked)"
proof -
  let ?M = "signed_identity N marked"
  have left: "sum_list (map (\<lambda>k. dagger ?M ! i ! k * ?M ! k ! j) [0..<N]) = (if i = j then 1 else 0)"
    if ij: "i < N" "j < N" for i j
  proof -
    have "map (\<lambda>k. dagger ?M ! i ! k * ?M ! k ! j) [0..<N]
        = map (\<lambda>k. if k = i then (if i = j then 1 else 0) else 0) [0..<N]"
      using ij by (auto simp: dagger_def length_signed_identity signed_identity_entry)
    then have "sum_list (map (\<lambda>k. dagger ?M ! i ! k * ?M ! k ! j) [0..<N])
        = sum_list (map (\<lambda>k. if k = i then (if i = j then 1 else 0) else 0) [0..<N])"
      by (rule arg_cong)
    also have "\<dots> = (if i = j then 1 else 0)"
      by (rule sum_list_upt_delta[OF ij(1)])
    finally show ?thesis .
  qed
  have right: "sum_list (map (\<lambda>k. ?M ! i ! k * dagger ?M ! k ! j) [0..<N]) = (if i = j then 1 else 0)"
    if ij: "i < N" "j < N" for i j
  proof -
    have "map (\<lambda>k. ?M ! i ! k * dagger ?M ! k ! j) [0..<N]
        = map (\<lambda>k. if k = i then (if i = j then 1 else 0) else 0) [0..<N]"
      using ij by (auto simp: dagger_def length_signed_identity signed_identity_entry)
    then have "sum_list (map (\<lambda>k. ?M ! i ! k * dagger ?M ! k ! j) [0..<N])
        = sum_list (map (\<lambda>k. if k = i then (if i = j then 1 else 0) else 0) [0..<N])"
      by (rule arg_cong)
    also have "\<dots> = (if i = j then 1 else 0)"
      by (rule sum_list_upt_delta[OF ij(1)])
    finally show ?thesis .
  qed
  have "mat_mul (dagger ?M) ?M = identity N"
    unfolding mat_mul_def identity_def
    by (simp add: length_signed_identity length_dagger left)
  moreover have "mat_mul ?M (dagger ?M) = identity N"
    unfolding mat_mul_def identity_def
    by (simp add: length_signed_identity length_dagger right)
  ultimately show ?thesis by (simp add: is_unitary_def length_signed_identity)
qed

lemma signed_identity_count:
  assumes "\<forall>i\<in>set marked. 0 \<le> i \<and> i < int N"
  shows "length (filter (\<lambda>i. signed_identity N marked ! i ! i = - 1) [0..<N]) = card (set marked)"
proof -
  have "filter (\<lambda>i. signed_identity N marked ! i ! i = - 1) [0..<N]
      = filter (\<lambda>i. int i \<in> set marked) [0..<N]"
    by (rule filter_cong) (auto simp: signed_identity_entry)
  moreover have "length (filter (\<lambda>i. int i \<in> set marked) [0..<N])
      = card {i. i < N \<and> int i \<in> set marked}"
    by (auto simp: length_filter_conv_card intro!: arg_cong[where f=card])
  moreover have "int ` {i. i < N \<and> int i \<in> set marked} = set marked"
  proof (rule set_eqI)
    fix x show "x \<in> int ` {i. i < N \<and> int i \<in> set marked} \<longleftrightarrow> x \<in> set marked"
    proof
      assume "x \<in> int ` {i. i < N \<and> int i \<in> set marked}" then show "x \<in> set marked" by auto
    next
      assume x: "x \<in> set marked"
      then have "0 \<le> x" "x < int N" using assms by auto
      then have "nat x < N" "int (nat x) = x" by auto
      then show "x \<in> int ` {i. i < N \<and> int i \<in> set marked}" using x
        by (metis (mono_tags, lifting) image_eqI mem_Collect_eq)
    qed
  qed
  moreover have "card (int ` {i. i < N \<and> int i \<in> set marked}) = card {i. i < N \<and> int i \<in> set marked}"
    by (rule card_image) (simp add: inj_on_def)
  ultimately show ?thesis by simp
qed

subsection \<open>Two qubits: gates, matrices and circuits evaluated\<close>

lemma hc_sq: "hc * hc = 1 / 2"
proof -
  have "hc * hc = complex_of_real ((1 / sqrt 2) * (1 / sqrt 2))"
    unfolding hc_def by (simp only: of_real_mult)
  also have "(1 / sqrt 2) * (1 / sqrt 2) = (1 / 2 :: real)" by simp
  finally show ?thesis by simp
qed

lemma hc_two_hc: "hc * (2 * hc) = 1"
proof -
  have "hc * (2 * hc) = 2 * (hc * hc)" by (simp only: mult.left_commute)
  then show ?thesis by (simp only: hc_sq) simp
qed

lemma upt_len4: "[0..<Suc (Suc (Suc (Suc 0)))] = [0, 1, 2, 3]"
  by (simp add: upt_rec)

lemma initial_state_2: "initial_state 2 = [1, 0, 0, 0]"
  by (simp add: initial_state_def eval_nat_numeral)

lemma h_gate_0_4: "h_gate 0 [a, b, c, d] = [hc * (a + b), hc * (a - b), hc * (c + d), hc * (c - d)]"
  by (simp add: h_gate_def upt_len4 del: upt_Suc)

lemma h_gate_1_4: "h_gate (Suc 0) [a, b, c, d] = [hc * (a + c), hc * (b + d), hc * (a - c), hc * (b - d)]"
  by (simp add: h_gate_def upt_len4 del: upt_Suc)

lemma upt_0_2: "[0..<2] = [0, Suc 0]"
  by (simp add: upt_rec)

lemma upt_0_4: "[0..<4] = [0, 1, 2, 3]"
  by (simp add: upt_rec)

lemma identity_4: "identity 4 = [[1, 0, 0, 0], [0, 1, 0, 0], [0, 0, 1, 0], [0, 0, 0, 1]]"
  by (simp add: identity_def upt_0_4)

lemma oracle_matrix_2_1:
  "oracle_matrix 2 [1] = Inr [[1, 0, 0, 0], [0, - 1, 0, 0], [0, 0, 1, 0], [0, 0, 0, 1]]"
  by (simp add: oracle_matrix_def identity_4 set_diag_def)

lemma oracle_matrix_2_0:
  "oracle_matrix 2 [0] = Inr [[- 1, 0, 0, 0], [0, 1, 0, 0], [0, 0, 1, 0], [0, 0, 0, 1]]"
  by (simp add: oracle_matrix_def identity_4 set_diag_def)

lemma phase_oracle_2_1: "phase_oracle 2 [1] ''Oracle'' = Inr oracle_2_1"
  by (simp add: phase_oracle_def oracle_matrix_2_1 qc_unitary_def add_instrs_def upt_0_2 oracle_2_1_def)

lemma diffuser_2_eq: "diffuser 2 = Inr diffuser_2"
  by (simp add: diffuser_def phase_oracle_def oracle_matrix_2_0 qc_unitary_def qc_h_def qc_append_def
      add_instrs_def upt_0_2 diffuser_2_def)

lemma Grover_2_1_1: "Grover 2 [1] 1 = Inr (QuantumCircuit 2 2 None
    [HGate 0, HGate 1, CircuitInstr oracle_2_1 [0, 1], CircuitInstr diffuser_2 [0, 1],
     Measure 0 0, Measure 1 1])"
  by (simp add: Grover_def phase_oracle_2_1 diffuser_2_eq qc_h_def qc_append_def qc_measure_def
      add_instrs_def upt_0_2)

lemma Grover_Step_I_2_1_1: "Grover_Step_I 2 [1] 1 = Inr (QuantumCircuit 2 0 None
    [HGate 0, HGate 1, CircuitInstr oracle_2_1 [0, 1]])"
  by (simp add: Grover_Step_I_def phase_oracle_2_1 qc_h_def qc_append_def add_instrs_def upt_0_2)

lemma mat_vec_4:
  "mat_vec [[m00, m01, m02, m03], [m10, m11, m12, m13], [m20, m21, m22, m23], [m30, m31, m32, m33]]
     [a, b, c, d] =
   [m00 * a + m01 * b + m02 * c + m03 * d, m10 * a + m11 * b + m12 * c + m13 * d,
    m20 * a + m21 * b + m22 * c + m23 * d, m30 * a + m31 * b + m32 * c + m33 * d]"
  by (simp add: mat_vec_def upt_len4 add.assoc del: upt_Suc)

lemma statevector_h2:
  "statevector (qc_h (QuantumCircuit 2 0 None []) [0..<2]) [] = Some [1/2, 1/2, 1/2, 1/2]"
  by (simp add: statevector_def run_circuit_def qc_h_def add_instrs_def upt_0_2 initial_state_2
      h_gate_0_4 h_gate_1_4 hc_sq)

lemma statevector_step_I:
  "statevector (QuantumCircuit 2 0 None
    [HGate 0, HGate 1, CircuitInstr oracle_2_1 [0, 1]]) [] = Some [1/2, - (1 / 2), 1/2, 1/2]"
  by (simp add: statevector_def run_circuit_def initial_state_2 oracle_2_1_def upt_0_2
      h_gate_0_4 h_gate_1_4 mat_vec_4 hc_sq)

lemma amps_grover:
  "exec_list 2 [HGate 0, HGate 1, CircuitInstr oracle_2_1 [0, 1], CircuitInstr diffuser_2 [0, 1]]
     \<lparr>amps = initial_state 2, clbits = cs, rand = us\<rparr> =
   Some \<lparr>amps = [0, - 1, 0, 0], clbits = cs, rand = us\<rparr>"
  by (simp add: initial_state_2 oracle_2_1_def diffuser_2_def upt_0_2
      h_gate_0_4 h_gate_1_4 mat_vec_4 hc_sq hc_two_hc)

subsection \<open>Two qubits: the measurements\<close>

lemma prob_4:
  "prob q b [x0, x1, x2, x3] =
     (if odd (0 div 2 ^ q :: nat) = b then (cmod x0)\<^sup>2 else 0) +
     ((if odd (1 div 2 ^ q :: nat) = b then (cmod x1)\<^sup>2 else 0) +
      ((if odd (2 div 2 ^ q :: nat) = b then (cmod x2)\<^sup>2 else 0) +
       (if odd (3 div 2 ^ q :: nat) = b then (cmod x3)\<^sup>2 else 0)))"
  by (simp add: prob_def upt_len4 del: upt_Suc)

lemma measure_final_0:
  "0 \<le> u \<Longrightarrow> measure_qubit 0 [0, - 1, 0, 0] u = (True, [0, - 1, 0, 0])"
  by (simp add: measure_qubit_def prob_4 upt_len4 Let_def del: upt_Suc)

lemma measure_final_1:
  "u < 1 \<Longrightarrow> measure_qubit (Suc 0) [0, - 1, 0, 0] u = (False, [0, - 1, 0, 0])"
  by (simp add: measure_qubit_def prob_4 upt_len4 Let_def del: upt_Suc)

lemma exec_list_append:
  "exec_list n (xs @ ys) s = (case exec_list n xs s of None \<Rightarrow> None | Some s' \<Rightarrow> exec_list n ys s')"
  by (induction xs arbitrary: s) (auto split: option.splits)

lemma run_grover_2_1_1:
  assumes "0 \<le> u0" "u1 < 1"
  shows "run_circuit grover_2_1_1 (u0 # u1 # us) =
     Some \<lparr>amps = [0, - 1, 0, 0], clbits = [True, False], rand = us\<rparr>"
proof -
  have "data grover_2_1_1 =
      [HGate 0, HGate 1, CircuitInstr oracle_2_1 [0, 1], CircuitInstr diffuser_2 [0, 1]] @
      [Measure 0 0, Measure 1 1]"
    by (simp add: grover_2_1_1_def)
  then show ?thesis using assms
    unfolding run_circuit_def
    by (simp only: exec_list_append grover_2_1_1_def circuit.sel amps_grover)
       (simp add: measure_final_0 measure_final_1 numeral_2_eq_2)
qed

lemma run_grover_2_1_1_streams:
  assumes "2 \<le> length us" "\<forall>u\<in>set us. 0 \<le> u \<and> u < 1"
  shows "statevector grover_2_1_1 us = Some [0, - 1, 0, 0] \<and> shot grover_2_1_1 us = Some ''01''"
proof -
  from assms(1) obtain u0 u1 us' where us: "us = u0 # u1 # us'"
    by (cases us; cases "tl us") auto
  with assms(2) have "0 \<le> u0" "u1 < 1" by auto
  from run_grover_2_1_1[OF this] show ?thesis
    by (simp add: us statevector_def shot_def bitstring_def)
qed

lemma probabilities_final: "probabilities [0, - 1, 0, 0] = [0, 1, 0, 0]"
  by (simp add: probabilities_def)

lemma execute_grover_2_1_1:
  assumes "\<forall>us\<in>set uss. 2 \<le> length us \<and> (\<forall>u\<in>set us. 0 \<le> u \<and> u < 1)"
  shows "execute grover_2_1_1 uss = replicate (length uss) (Some ''01'')"
  unfolding execute_def using assms
  by (induction uss) (simp_all add: run_grover_2_1_1_streams)

subsection \<open>The round count\<close>

lemma round_count_2_1: "round_count 2 1 = Inr 1"
proof -
  have "pi / 4 * sqrt (2 ^ 2 / real 1) = pi / 2" by simp
  moreover have "\<lfloor>pi / 2\<rfloor> = 1"
    using pi_ge_two pi_half_less_two by (intro floor_unique) simp_all
  ultimately show ?thesis by (simp add: round_count_def)
qed

lemma round_count_all: "round_count n (2 ^ n) = Inr 0"
proof -
  have "pi / 4 * sqrt (2 ^ n / real (2 ^ n)) = pi / 4" by simp
  moreover have "\<lfloor>pi / 4\<rfloor> = 0"
    using pi_gt_zero pi_less_4 by (intro floor_unique) simp_all
  ultimately show ?thesis by (simp add: round_count_def)
qed

lemma Grover_2_1_0: "Grover 2 [1] 0 = Grover 2 [1] 1"
  using round_count_2_1 by (simp add: Grover_def)

subsection \<open>Hadamard gates: bit positions and linearity\<close>

lemma length_h_gate: "length (h_gate q psi) = length psi"
  by (simp add: h_gate_def)

lemma even_bit_room:
  fixes i q n :: nat
  assumes "i < 2 ^ n" "q < n" "even (i div 2 ^ q)"
  shows "i + 2 ^ q < 2 ^ n"
proof -
  obtain d where n: "n = q + Suc d" using assms(2) less_iff_Suc_add by auto
  have "i < 2 ^ Suc d * 2 ^ q"
    using assms(1) by (simp only: n power_add mult.commute)
  then have "i div 2 ^ q < 2 ^ Suc d"
    by (rule less_mult_imp_div_less)
  moreover have "even (2 ^ Suc d :: nat)" by simp
  ultimately have "i div 2 ^ q + 1 < 2 ^ Suc d"
    using assms(3) by (metis Suc_eq_plus1 Suc_lessI even_Suc)
  then have le: "i div 2 ^ q + 2 \<le> 2 ^ Suc d" by simp
  have "i mod 2 ^ q < 2 ^ q" by simp
  moreover have "i = i div 2 ^ q * 2 ^ q + i mod 2 ^ q" by (rule div_mult_mod_eq[symmetric])
  ultimately have "i + 2 ^ q < i div 2 ^ q * 2 ^ q + 2 * 2 ^ q" by linarith
  also have "\<dots> = (i div 2 ^ q + 2) * 2 ^ q" by (simp add: algebra_simps)
  also have "\<dots> \<le> 2 ^ Suc d * 2 ^ q" using le by (rule mult_le_mono1)
  finally show ?thesis by (simp only: n power_add mult.commute)
qed

lemma odd_bit_ge:
  fixes i q :: nat
  assumes "odd (i div 2 ^ q)"
  shows "2 ^ q \<le> i"
proof (rule ccontr)
  assume "\<not> 2 ^ q \<le> i"
  then have "i div 2 ^ q = 0" by simp
  with assms show False by simp
qed

lemma bit_high_add:
  fixes i q m :: nat
  assumes "q < m"
  shows "odd ((2 ^ m + i) div 2 ^ q) = odd (i div 2 ^ q)"
proof -
  obtain d where m: "m = q + Suc d" using assms less_iff_Suc_add by auto
  have "(2 ^ m + i) div 2 ^ q = (i + 2 ^ Suc d * 2 ^ q) div 2 ^ q"
    by (simp only: m power_add mult.commute add.commute)
  also have "\<dots> = i div 2 ^ q + 2 ^ Suc d"
    by simp
  finally have "(2 ^ m + i) div 2 ^ q = 2 ^ Suc d + i div 2 ^ q"
    by simp
  then show ?thesis by simp
qed

lemma h_gate_linear:
  assumes "length X = 2 ^ n" "length Y = 2 ^ n" "q < n"
  shows "h_gate q (map2 (\<lambda>a b. \<alpha> * a + \<beta> * b) X Y)
       = map2 (\<lambda>a b. \<alpha> * a + \<beta> * b) (h_gate q X) (h_gate q Y)"
proof (rule nth_equalityI)
  show "length (h_gate q (map2 (\<lambda>a b. \<alpha> * a + \<beta> * b) X Y))
      = length (map2 (\<lambda>a b. \<alpha> * a + \<beta> * b) (h_gate q X) (h_gate q Y))"
    using assms by (simp add: length_h_gate)
next
  fix i assume "i < length (h_gate q (map2 (\<lambda>a b. \<alpha> * a + \<beta> * b) X Y))"
  then have i: "i < 2 ^ n" using assms by (simp add: length_h_gate)
  show "h_gate q (map2 (\<lambda>a b. \<alpha> * a + \<beta> * b) X Y) ! i
      = map2 (\<lambda>a b. \<alpha> * a + \<beta> * b) (h_gate q X) (h_gate q Y) ! i"
  proof (cases "odd (i div 2 ^ q)")
    case True
    have "i - 2 ^ q < 2 ^ n" using i by simp
    then show ?thesis using True i assms
      by (simp add: h_gate_def algebra_simps)
  next
    case False
    then have "i + 2 ^ q < 2 ^ n" using even_bit_room[OF i assms(3)] by simp
    then show ?thesis using False i assms
      by (simp add: h_gate_def algebra_simps)
  qed
qed

subsection \<open>Hadamard gates on all qubits\<close>

lemma length_h_all: "length (h_all m psi) = length psi"
  unfolding h_all_def by (induction m) (simp_all add: length_h_gate)

lemma h_all_Suc: "h_all (Suc m) psi = h_gate m (h_all m psi)"
  by (simp add: h_all_def)

lemma h_all_0: "h_all 0 psi = psi"
  by (simp add: h_all_def)

lemma h_all_linear:
  assumes "length X = 2 ^ n" "length Y = 2 ^ n" "m \<le> n"
  shows "h_all m (map2 (\<lambda>a b. \<alpha> * a + \<beta> * b) X Y)
       = map2 (\<lambda>a b. \<alpha> * a + \<beta> * b) (h_all m X) (h_all m Y)"
  using assms(3)
proof (induction m)
  case 0
  show ?case by (simp add: h_all_0)
next
  case (Suc m)
  then have "m < n" "m \<le> n" by simp_all
  then show ?case
    using Suc.IH h_gate_linear[of "h_all m X" n "h_all m Y" m \<alpha> \<beta>] assms(1,2)
    by (simp add: h_all_Suc length_h_all)
qed

lemma h_gate_low_append:
  assumes "length A = 2 ^ m" "length B = 2 ^ m" "q < m"
  shows "h_gate q (A @ B) = h_gate q A @ h_gate q B"
proof (rule nth_equalityI)
  show "length (h_gate q (A @ B)) = length (h_gate q A @ h_gate q B)"
    by (simp add: length_h_gate)
next
  fix i assume "i < length (h_gate q (A @ B))"
  then have i: "i < 2 ^ m + 2 ^ m" using assms by (simp add: length_h_gate)
  show "h_gate q (A @ B) ! i = (h_gate q A @ h_gate q B) ! i"
  proof (cases "i < 2 ^ m")
    case True
    show ?thesis
    proof (cases "odd (i div 2 ^ q)")
      case odd: True
      have "i - 2 ^ q < 2 ^ m" using True by simp
      then show ?thesis using odd True assms
        by (simp add: h_gate_def nth_append)
    next
      case even: False
      then have "i + 2 ^ q < 2 ^ m" using even_bit_room[OF True assms(3)] by simp
      then show ?thesis using even True assms
        by (simp add: h_gate_def nth_append)
    qed
  next
    case False
    define j where "j = i - 2 ^ m"
    have ij: "i = 2 ^ m + j" "j < 2 ^ m" using False i by (simp_all add: j_def)
    have par: "odd (i div 2 ^ q) = odd (j div 2 ^ q)"
      unfolding ij(1) by (rule bit_high_add[OF assms(3)])
    show ?thesis
    proof (cases "odd (j div 2 ^ q)")
      case odd: True
      have "2 ^ q \<le> j" using odd by (rule odd_bit_ge)
      then have "\<not> 2 ^ m + j - 2 ^ q < 2 ^ m" "2 ^ m + j - 2 ^ q - 2 ^ m = j - 2 ^ q"
        by simp_all
      then show ?thesis using odd par ij assms
        by (simp add: h_gate_def nth_append)
    next
      case even: False
      then show ?thesis using par ij assms
        by (simp add: h_gate_def nth_append)
    qed
  qed
qed

lemma h_gate_top_append:
  assumes "length A = 2 ^ m" "length B = 2 ^ m"
  shows "h_gate m (A @ B) = map2 (\<lambda>a b. hc * (a + b)) A B @ map2 (\<lambda>a b. hc * (a - b)) A B"
proof (rule nth_equalityI)
  show "length (h_gate m (A @ B)) = length (map2 (\<lambda>a b. hc * (a + b)) A B @ map2 (\<lambda>a b. hc * (a - b)) A B)"
    using assms by (simp add: length_h_gate)
next
  fix i assume "i < length (h_gate m (A @ B))"
  then have i: "i < 2 ^ m + 2 ^ m" using assms by (simp add: length_h_gate)
  show "h_gate m (A @ B) ! i = (map2 (\<lambda>a b. hc * (a + b)) A B @ map2 (\<lambda>a b. hc * (a - b)) A B) ! i"
  proof (cases "i < 2 ^ m")
    case True
    then show ?thesis using assms
      by (simp add: h_gate_def nth_append)
  next
    case False
    define j where "j = i - 2 ^ m"
    have ij: "i = 2 ^ m + j" "j < 2 ^ m" using False i by (simp_all add: j_def)
    have "(2 ^ m + j) div 2 ^ m = 1" using ij(2) by simp
    then show ?thesis using ij assms
      by (simp add: h_gate_def nth_append)
  qed
qed

lemma h_all_append:
  assumes "length A = 2 ^ m" "length B = 2 ^ m" "k \<le> m"
  shows "h_all k (A @ B) = h_all k A @ h_all k B"
  using assms(3)
proof (induction k)
  case 0
  show ?case by (simp add: h_all_0)
next
  case (Suc k)
  then have "k < m" "k \<le> m" by simp_all
  then show ?case
    using Suc.IH h_gate_low_append[of "h_all k A" m "h_all k B" k] assms(1,2)
    by (simp add: h_all_Suc length_h_all)
qed

lemma h_all_step:
  assumes "length A = 2 ^ m" "length B = 2 ^ m"
  shows "h_all (Suc m) (A @ B) =
     map2 (\<lambda>a b. hc * (a + b)) (h_all m A) (h_all m B) @
     map2 (\<lambda>a b. hc * (a - b)) (h_all m A) (h_all m B)"
  using assms
  by (simp add: h_all_Suc h_all_append h_gate_top_append length_h_all)

lemma split_halves:
  assumes "length psi = 2 ^ Suc m"
  obtains A B where "psi = A @ B" "length A = 2 ^ m" "length B = 2 ^ m"
proof
  show "psi = take (2 ^ m) psi @ drop (2 ^ m) psi" by simp
  show "length (take (2 ^ m) psi) = 2 ^ m" using assms by simp
  show "length (drop (2 ^ m) psi) = 2 ^ m" using assms by simp
qed

lemma map2_plus_minus_left:
  assumes "length A = length B"
  shows "map2 (\<lambda>a b. hc * (a + b)) (map2 (\<lambda>a b. hc * (a + b)) A B) (map2 (\<lambda>a b. hc * (a - b)) A B) = A"
proof (rule nth_equalityI)
  show "length (map2 (\<lambda>a b. hc * (a + b)) (map2 (\<lambda>a b. hc * (a + b)) A B) (map2 (\<lambda>a b. hc * (a - b)) A B)) = length A"
    using assms by simp
next
  fix i assume "i < length (map2 (\<lambda>a b. hc * (a + b)) (map2 (\<lambda>a b. hc * (a + b)) A B) (map2 (\<lambda>a b. hc * (a - b)) A B))"
  then have i: "i < length A" "i < length B" using assms by simp_all
  have "hc * (hc * (A ! i + B ! i) + hc * (A ! i - B ! i)) = (hc * hc) * (2 * A ! i)"
    by (simp add: algebra_simps)
  also have "\<dots> = A ! i" by (simp only: hc_sq) simp
  finally show "map2 (\<lambda>a b. hc * (a + b)) (map2 (\<lambda>a b. hc * (a + b)) A B) (map2 (\<lambda>a b. hc * (a - b)) A B) ! i = A ! i"
    using i by simp
qed

lemma map2_plus_minus_right:
  assumes "length A = length B"
  shows "map2 (\<lambda>a b. hc * (a - b)) (map2 (\<lambda>a b. hc * (a + b)) A B) (map2 (\<lambda>a b. hc * (a - b)) A B) = B"
proof (rule nth_equalityI)
  show "length (map2 (\<lambda>a b. hc * (a - b)) (map2 (\<lambda>a b. hc * (a + b)) A B) (map2 (\<lambda>a b. hc * (a - b)) A B)) = length B"
    using assms by simp
next
  fix i assume "i < length (map2 (\<lambda>a b. hc * (a - b)) (map2 (\<lambda>a b. hc * (a + b)) A B) (map2 (\<lambda>a b. hc * (a - b)) A B))"
  then have i: "i < length A" "i < length B" using assms by simp_all
  have "hc * (hc * (A ! i + B ! i) - hc * (A ! i - B ! i)) = (hc * hc) * (2 * B ! i)"
    by (simp add: algebra_simps)
  also have "\<dots> = B ! i" by (simp only: hc_sq) simp
  finally show "map2 (\<lambda>a b. hc * (a - b)) (map2 (\<lambda>a b. hc * (a + b)) A B) (map2 (\<lambda>a b. hc * (a - b)) A B) ! i = B ! i"
    using i by simp
qed

lemma map2_as_linear_plus: "map2 (\<lambda>a b. hc * (a + b)) X Y = map2 (\<lambda>a b. hc * a + hc * b) X Y"
  by (simp add: algebra_simps)

lemma map2_as_linear_minus: "map2 (\<lambda>a b. hc * (a - b)) X Y = map2 (\<lambda>a b. hc * a + (- hc) * b) X Y"
  by (simp add: algebra_simps)

lemma h_all_involution:
  "length psi = 2 ^ n \<Longrightarrow> h_all n (h_all n psi) = psi"
proof (induction n arbitrary: psi)
  case 0
  show ?case by (simp add: h_all_0)
next
  case (Suc n)
  from Suc.prems obtain A B where AB: "psi = A @ B" "length A = 2 ^ n" "length B = 2 ^ n"
    by (rule split_halves)
  let ?A = "h_all n A" and ?B = "h_all n B"
  have lA: "length ?A = 2 ^ n" and lB: "length ?B = 2 ^ n"
    using AB by (simp_all add: length_h_all)
  let ?X = "map2 (\<lambda>a b. hc * (a + b)) ?A ?B" and ?Y = "map2 (\<lambda>a b. hc * (a - b)) ?A ?B"
  have lX: "length ?X = 2 ^ n" and lY: "length ?Y = 2 ^ n" using lA lB by simp_all
  have X: "h_all n ?X = map2 (\<lambda>a b. hc * (a + b)) A B"
    using h_all_linear[OF lA lB le_refl, of hc hc] Suc.IH[OF AB(2)] Suc.IH[OF AB(3)]
    by (simp only: map2_as_linear_plus)
  have Y: "h_all n ?Y = map2 (\<lambda>a b. hc * (a - b)) A B"
    using h_all_linear[OF lA lB le_refl, of hc "- hc"] Suc.IH[OF AB(2)] Suc.IH[OF AB(3)]
    by (simp only: map2_as_linear_minus)
  have "h_all (Suc n) psi = ?X @ ?Y"
    unfolding AB(1) by (rule h_all_step[OF AB(2,3)])
  then have "h_all (Suc n) (h_all (Suc n) psi) =
      map2 (\<lambda>a b. hc * (a + b)) (h_all n ?X) (h_all n ?Y) @
      map2 (\<lambda>a b. hc * (a - b)) (h_all n ?X) (h_all n ?Y)"
    using h_all_step[OF lX lY] by simp
  also have "\<dots> = A @ B"
    unfolding X Y using map2_plus_minus_left[of A B] map2_plus_minus_right[of A B] AB(2,3)
    by simp
  finally show ?case using AB(1) by simp
qed

lemma h_all_first:
  "length psi = 2 ^ n \<Longrightarrow> h_all n psi ! 0 = hc ^ n * sum_list psi"
proof (induction n arbitrary: psi)
  case 0
  then obtain a where "psi = [a]" by (cases psi) auto
  then show ?case by (simp add: h_all_0)
next
  case (Suc n)
  from Suc.prems obtain A B where AB: "psi = A @ B" "length A = 2 ^ n" "length B = 2 ^ n"
    by (rule split_halves)
  have l: "length (h_all n A) = 2 ^ n" "length (h_all n B) = 2 ^ n"
    using AB by (simp_all add: length_h_all)
  have "h_all (Suc n) psi ! 0 = hc * (h_all n A ! 0 + h_all n B ! 0)"
    unfolding AB(1) h_all_step[OF AB(2,3)] using l by (simp add: nth_append)
  also have "\<dots> = hc * (hc ^ n * sum_list A + hc ^ n * sum_list B)"
    by (simp only: Suc.IH[OF AB(2)] Suc.IH[OF AB(3)])
  also have "\<dots> = hc ^ Suc n * sum_list psi"
    by (simp add: AB(1) algebra_simps)
  finally show ?case .
qed

lemma h_all_zero: "h_all n (replicate (2 ^ n) 0) = replicate (2 ^ n) 0"
proof (induction n)
  case 0
  show ?case by (simp add: h_all_0)
next
  case (Suc n)
  have "replicate (2 ^ Suc n) (0::complex) = replicate (2 ^ n) 0 @ replicate (2 ^ n) 0"
    by (simp add: replicate_add[symmetric])
  then have "h_all (Suc n) (replicate (2 ^ Suc n) 0) =
      map2 (\<lambda>a b. hc * (a + b)) (h_all n (replicate (2 ^ n) 0)) (h_all n (replicate (2 ^ n) 0)) @
      map2 (\<lambda>a b. hc * (a - b)) (h_all n (replicate (2 ^ n) 0)) (h_all n (replicate (2 ^ n) 0))"
    using h_all_step[of "replicate (2 ^ n) 0" n "replicate (2 ^ n) 0"] by simp
  also have "\<dots> = replicate (2 ^ n) 0 @ replicate (2 ^ n) 0"
    unfolding Suc.IH by (simp add: map2_map_map[symmetric] zip_replicate)
  finally show ?case by (simp add: replicate_add[symmetric])
qed

lemma initial_state_Suc: "initial_state (Suc n) = initial_state n @ replicate (2 ^ n) 0"
proof -
  have "(2::nat) ^ Suc n - 1 = (2 ^ n - 1) + 2 ^ n" by simp
  then show ?thesis
    unfolding initial_state_def by (simp only: replicate_add) simp
qed

lemma length_initial_state: "length (initial_state n) = 2 ^ n"
  by (simp add: initial_state_def)

lemma h_all_initial: "h_all n (initial_state n) = replicate (2 ^ n) (hc ^ n)"
proof (induction n)
  case 0
  show ?case by (simp add: h_all_0 initial_state_def)
next
  case (Suc n)
  have "h_all (Suc n) (initial_state (Suc n)) =
      map2 (\<lambda>a b. hc * (a + b)) (h_all n (initial_state n)) (h_all n (replicate (2 ^ n) 0)) @
      map2 (\<lambda>a b. hc * (a - b)) (h_all n (initial_state n)) (h_all n (replicate (2 ^ n) 0))"
    unfolding initial_state_Suc
    by (rule h_all_step) (simp_all add: length_initial_state)
  also have "\<dots> = replicate (2 ^ n) (hc ^ Suc n) @ replicate (2 ^ n) (hc ^ Suc n)"
    unfolding Suc.IH h_all_zero by (simp add: zip_replicate)
  finally show ?case by (simp add: replicate_add[symmetric])
qed

subsection \<open>The diffuser as a transform\<close>

lemma exec_hadamards:
  assumes "length (amps s) = 2 ^ n" "m \<le> n"
  shows "exec_list n (map HGate [0..<m]) s = Some (s\<lparr>amps := h_all m (amps s)\<rparr>)"
  using assms(2)
proof (induction m)
  case 0
  show ?case by (simp add: h_all_0)
next
  case (Suc m)
  then have "m < n" "m \<le> n" by simp_all
  then show ?case using Suc.IH assms(1)
    by (simp add: exec_list_append h_all_Suc length_h_all)
qed

lemma signed_identity_rows: "list_all (\<lambda>row. length row = N) (signed_identity N marked)"
  by (simp add: signed_identity_def list_all_iff)

lemma mat_vec_signed_identity:
  assumes "length psi = N"
  shows "mat_vec (signed_identity N marked) psi =
     map (\<lambda>i. (if int i \<in> set marked then - 1 else 1) * psi ! i) [0..<N]"
proof -
  have "sum_list (map (\<lambda>j. signed_identity N marked ! i ! j * psi ! j) [0..<N])
      = (if int i \<in> set marked then - 1 else 1) * psi ! i" if i: "i < N" for i
  proof -
    have "map (\<lambda>j. signed_identity N marked ! i ! j * psi ! j) [0..<N]
        = map (\<lambda>j. if j = i then (if int i \<in> set marked then - 1 else 1) * psi ! i else 0) [0..<N]"
      using i by (auto simp: signed_identity_entry)
    then have "sum_list (map (\<lambda>j. signed_identity N marked ! i ! j * psi ! j) [0..<N])
        = sum_list (map (\<lambda>j. if j = i then (if int i \<in> set marked then - 1 else 1) * psi ! i else 0) [0..<N])"
      by (rule arg_cong)
    also have "\<dots> = (if int i \<in> set marked then - 1 else 1) * psi ! i"
      by (rule sum_list_upt_delta[OF i])
    finally show ?thesis .
  qed
  then show ?thesis
    using assms by (simp add: mat_vec_def length_signed_identity)
qed

lemma exec_oracle:
  assumes "length (amps s) = 2 ^ n"
  shows "exec_instr n (CircuitInstr (QuantumCircuit n 0 nm
            [UnitaryGate (signed_identity (2 ^ n) marked) [0..<n]]) [0..<n]) s =
         Some (s\<lparr>amps := map (\<lambda>i. (if int i \<in> set marked then - 1 else 1) * amps s ! i) [0..<2 ^ n]\<rparr>)"
  using assms
  by (simp add: length_signed_identity signed_identity_rows mat_vec_signed_identity)

lemma flip_first_linear:
  assumes "length psi = 2 ^ n"
  shows "map (\<lambda>i. (if int i \<in> set [0] then - 1 else 1) * psi ! i) [0..<2 ^ n]
       = map2 (\<lambda>a b. 1 * a + (- 2 * psi ! 0) * b) psi (initial_state n)"
proof (rule nth_equalityI)
  show "length (map (\<lambda>i. (if int i \<in> set [0] then - 1 else 1) * psi ! i) [0..<2 ^ n])
      = length (map2 (\<lambda>a b. 1 * a + (- 2 * psi ! 0) * b) psi (initial_state n))"
    using assms by (simp add: length_initial_state)
next
  fix i assume "i < length (map (\<lambda>i. (if int i \<in> set [0] then - 1 else 1) * psi ! i) [0..<2 ^ n])"
  then have i: "i < 2 ^ n" by simp
  have "initial_state n ! i = (if i = 0 then 1 else 0)"
    using i by (simp add: initial_state_def nth_Cons')
  then show "map (\<lambda>i. (if int i \<in> set [0] then - 1 else 1) * psi ! i) [0..<2 ^ n] ! i
      = map2 (\<lambda>a b. 1 * a + (- 2 * psi ! 0) * b) psi (initial_state n) ! i"
    using i assms by (simp add: length_initial_state)
qed

lemma hc_pow_sq: "hc ^ n * hc ^ n = 1 / 2 ^ n"
proof -
  have "hc ^ n * hc ^ n = (hc * hc) ^ n" by (simp add: power_mult_distrib)
  also have "\<dots> = 1 / 2 ^ n" by (simp only: hc_sq power_one_over)
  finally show ?thesis .
qed

lemma diffuser_amps:
  assumes "length psi = 2 ^ n"
  shows "h_all n (map (\<lambda>i. (if int i \<in> set [0] then - 1 else 1) * h_all n psi ! i) [0..<2 ^ n])
       = map (\<lambda>a. a - 2 * mean psi) psi"
proof -
  let ?phi = "h_all n psi"
  have lphi: "length ?phi = 2 ^ n" using assms by (simp add: length_h_all)
  have "h_all n (map (\<lambda>i. (if int i \<in> set [0] then - 1 else 1) * ?phi ! i) [0..<2 ^ n])
      = h_all n (map2 (\<lambda>a b. 1 * a + (- 2 * ?phi ! 0) * b) ?phi (initial_state n))"
    by (simp only: flip_first_linear[OF lphi])
  also have "\<dots> = map2 (\<lambda>a b. 1 * a + (- 2 * ?phi ! 0) * b) (h_all n ?phi) (h_all n (initial_state n))"
    by (rule h_all_linear[OF lphi length_initial_state le_refl])
  also have "\<dots> = map2 (\<lambda>a b. 1 * a + (- 2 * ?phi ! 0) * b) psi (replicate (2 ^ n) (hc ^ n))"
    by (simp only: h_all_involution[OF assms] h_all_initial)
  also have "\<dots> = map (\<lambda>a. a - 2 * mean psi) psi"
  proof (rule nth_equalityI)
    show "length (map2 (\<lambda>a b. 1 * a + (- 2 * ?phi ! 0) * b) psi (replicate (2 ^ n) (hc ^ n)))
        = length (map (\<lambda>a. a - 2 * mean psi) psi)"
      using assms by simp
  next
    fix i assume "i < length (map2 (\<lambda>a b. 1 * a + (- 2 * ?phi ! 0) * b) psi (replicate (2 ^ n) (hc ^ n)))"
    then have i: "i < 2 ^ n" using assms by simp
    have "?phi ! 0 * hc ^ n = (hc ^ n * hc ^ n) * sum_list psi"
      by (simp add: h_all_first[OF assms])
    also have "\<dots> = mean psi"
      by (simp only: hc_pow_sq) (simp add: mean_def assms)
    finally have "?phi ! 0 * hc ^ n = mean psi" .
    then have "1 * psi ! i + (- 2 * ?phi ! 0) * hc ^ n = psi ! i - 2 * mean psi"
      by (simp add: mult.assoc)
    then show "map2 (\<lambda>a b. 1 * a + (- 2 * ?phi ! 0) * b) psi (replicate (2 ^ n) (hc ^ n)) ! i
        = map (\<lambda>a. a - 2 * mean psi) psi ! i"
      using i assms by simp
  qed
  finally show ?thesis .
qed

lemma diffuser_closed:
  "diffuser n = Inr (QuantumCircuit n 0 (Some ''Diffuser'')
     (map HGate [0..<n] @
      [CircuitInstr (QuantumCircuit n 0 (Some ''Oracle'')
         [UnitaryGate (signed_identity (2 ^ n) [0]) [0..<n]]) [0..<n]] @
      map HGate [0..<n]))"
proof -
  have "oracle_matrix n [0] = Inr (signed_identity (2 ^ n) [0])"
    by (rule oracle_matrix_closed) simp
  then show ?thesis
    by (simp add: diffuser_def phase_oracle_def qc_h_def qc_append_def qc_unitary_def add_instrs_def)
qed

lemma exec_diffuser_data:
  assumes "length (amps s) = 2 ^ n"
  shows "exec_list n (map HGate [0..<n] @
      [CircuitInstr (QuantumCircuit n 0 (Some ''Oracle'')
         [UnitaryGate (signed_identity (2 ^ n) [0]) [0..<n]]) [0..<n]] @
      map HGate [0..<n]) s = Some (s\<lparr>amps := map (\<lambda>a. a - 2 * mean (amps s)) (amps s)\<rparr>)"
proof -
  let ?s1 = "s\<lparr>amps := h_all n (amps s)\<rparr>"
  let ?s2 = "?s1\<lparr>amps := map (\<lambda>i. (if int i \<in> set [0] then - 1 else 1) * amps ?s1 ! i) [0..<2 ^ n]\<rparr>"
  have l1: "length (amps ?s1) = 2 ^ n" using assms by (simp add: length_h_all)
  have l2: "length (amps ?s2) = 2 ^ n" by simp
  have e1: "exec_list n (map HGate [0..<n]) s = Some ?s1"
    by (rule exec_hadamards[OF assms le_refl])
  have e2: "exec_instr n (CircuitInstr (QuantumCircuit n 0 (Some ''Oracle'')
         [UnitaryGate (signed_identity (2 ^ n) [0]) [0..<n]]) [0..<n]) ?s1 = Some ?s2"
    by (rule exec_oracle[OF l1])
  have e3: "exec_list n (map HGate [0..<n]) ?s2 = Some (?s2\<lparr>amps := h_all n (amps ?s2)\<rparr>)"
    by (rule exec_hadamards[OF l2 le_refl])
  have "h_all n (amps ?s2) = map (\<lambda>a. a - 2 * mean (amps s)) (amps s)"
    using diffuser_amps[OF assms] by simp
  then show ?thesis
    by (simp only: exec_list_append e1 option.case exec_list.simps e2 e3) simp
qed

subsection \<open>The circuit of Grover for any round count\<close>

lemma Grover_rounds_eq:
  assumes "phase_oracle n marked ''Oracle'' = Inr orc" "diffuser n = Inr dif"
  shows "Grover n marked r =
     (case (if r = 0 then round_count n (length marked) else Inr r) of
        Inl e \<Rightarrow> Inl e
      | Inr r' \<Rightarrow> Inr (QuantumCircuit n n None
          (map HGate [0..<n] @
           concat (replicate (nat r') [CircuitInstr orc [0..<n], CircuitInstr dif [0..<n]]) @
           map (\<lambda>q. Measure q q) [0..<n])))"
  by (simp add: Grover_def rounds_loop_ok[OF assms] qc_h_def qc_measure_def add_instrs_def
      measure_all split: sum.splits)

subsection \<open>Reflections\<close>

lemma mean_reflected:
  assumes "psi \<noteq> []"
  shows "mean (map (\<lambda>a. a - 2 * mean psi) psi) = - mean psi"
proof -
  define m where "m = mean psi"
  define N :: complex where "N = of_nat (length psi)"
  have nz: "N \<noteq> 0" using assms by (simp add: N_def)
  have "sum_list (map (\<lambda>a. a - 2 * m) psi) = sum_list psi - N * (2 * m)"
    by (simp add: sum_list_subtractf sum_list_triv N_def)
  moreover have "sum_list psi = N * m"
    using nz by (simp add: m_def mean_def N_def)
  ultimately have "sum_list (map (\<lambda>a. a - 2 * m) psi) = N * (- m)"
    by (simp add: algebra_simps)
  then have "mean (map (\<lambda>a. a - 2 * m) psi) = N * (- m) / N"
    by (simp add: mean_def N_def)
  also have "\<dots> = - m" using nz by simp
  finally show ?thesis by (simp only: m_def)
qed

lemma reflect_twice:
  assumes "psi \<noteq> []"
  shows "map (\<lambda>a. a - 2 * mean (map (\<lambda>a. a - 2 * mean psi) psi)) (map (\<lambda>a. a - 2 * mean psi) psi) = psi"
  by (simp add: mean_reflected[OF assms] map_idI)




lemma count_list_all_equal: "count_list (replicate k x) x = k"
  by (induction k) simp_all

subsection \<open>Duplicate marked indices and the round count\<close>

lemma pi_ge_three: "3 \<le> pi"
proof -
  have "sin (pi / 6) \<le> pi / 6" by (rule sin_x_le_x) simp
  then show ?thesis by (simp add: sin_30)
qed

lemma sqrt_2_bounds: "7 / 5 < sqrt 2" "sqrt 2 < 3 / 2"
proof -
  have "(7 / 5 :: real) = sqrt ((7 / 5)\<^sup>2)" by simp
  also have "\<dots> < sqrt 2" by (rule real_sqrt_less_mono) (simp add: power2_eq_square)
  finally show "7 / 5 < sqrt 2" .
  have "sqrt 2 < sqrt ((3 / 2)\<^sup>2)" by (rule real_sqrt_less_mono) (simp add: power2_eq_square)
  then show "sqrt 2 < 3 / 2" by simp
qed

lemma floor_one_marked_of_eight: "\<lfloor>pi / 4 * sqrt (2 ^ 3 / real (card (set [5, 5 :: int])))\<rfloor> = 2"
proof -
  have "sqrt (2 ^ 3 / real (card (set [5, 5 :: int]))) = sqrt (2\<^sup>2 * 2)" by simp
  also have "\<dots> = 2 * sqrt 2" by (simp only: real_sqrt_mult) simp
  finally have e: "pi / 4 * sqrt (2 ^ 3 / real (card (set [5, 5 :: int]))) = pi * sqrt 2 / 2" by simp
  have lo: "3 * (7 / 5) \<le> pi * sqrt 2"
    by (rule mult_mono) (use pi_ge_three sqrt_2_bounds in simp_all)
  have hi: "pi * sqrt 2 < 4 * (3 / 2)"
    by (rule mult_strict_mono) (use pi_less_4 sqrt_2_bounds in simp_all)
  show ?thesis unfolding e using lo hi by (intro floor_unique) simp_all
qed

lemma round_count_3_2: "round_count 3 2 = Inr 1"
proof -
  have "pi / 4 * sqrt (2 ^ 3 / real 2) = pi / 2" by simp
  moreover have "\<lfloor>pi / 2\<rfloor> = 1"
    using pi_ge_two pi_half_less_two by (intro floor_unique) simp_all
  ultimately show ?thesis by (simp add: round_count_def)
qed

lemma Grover_default_rounds_distinct:
  assumes "0 < n" and "\<forall>i\<in>set marked. 0 \<le> i \<and> i < 2 ^ n" and "marked \<noteq> []"
    and "distinct marked"
  shows "\<exists>orc dif. phase_oracle n marked ''Oracle'' = Inr orc \<and> diffuser n = Inr dif \<and>
     Grover_call n marked None =
       Inr (QuantumCircuit n n None
         (map HGate [0..<n] @
          concat (replicate (nat \<lfloor>pi / 4 * sqrt (2 ^ n / real (card (set marked)))\<rfloor>)
            [CircuitInstr orc [0..<n], CircuitInstr dif [0..<n]]) @
          map (\<lambda>q. Measure q q) [0..<n]))"
proof -
  from phase_oracle_ok[OF assms(2)] obtain orc where o: "phase_oracle n marked ''Oracle'' = Inr orc"
    by blast
  from diffuser_ok obtain dif where d: "diffuser n = Inr dif" by blast
  have k: "length marked \<noteq> 0" using assms(3) by simp
  have c: "card (set marked) = length marked" using assms(4) by (rule distinct_card)
  show ?thesis using o d k
    by (simp add: Grover_call_def Grover_rounds_eq[OF o d] round_count_def c)
qed

subsection \<open>The transform of the diffuser on every register\<close>

lemma diffuser_negated_reflection:
  assumes "0 < n" and "length psi = 2 ^ n"
  shows "\<exists>orc dif. phase_oracle n [0] ''Oracle'' = Inr orc \<and> diffuser n = Inr dif \<and>
     dif = QuantumCircuit n 0 (Some ''Diffuser'')
             (map HGate [0..<n] @ [CircuitInstr orc [0..<n]] @ map HGate [0..<n]) \<and>
     apply_circuit dif psi = Some (map (\<lambda>a. a - 2 * mean psi) psi)"
proof -
  let ?orc = "QuantumCircuit n 0 (Some ''Oracle'') [UnitaryGate (signed_identity (2 ^ n) [0]) [0..<n]]"
  let ?dif = "QuantumCircuit n 0 (Some ''Diffuser'')
             (map HGate [0..<n] @ [CircuitInstr ?orc [0..<n]] @ map HGate [0..<n])"
  have "oracle_matrix n [0] = Inr (signed_identity (2 ^ n) [0])"
    by (rule oracle_matrix_closed) simp
  then have o: "phase_oracle n [0] ''Oracle'' = Inr ?orc"
    by (simp add: phase_oracle_def qc_unitary_def add_instrs_def)
  have d: "diffuser n = Inr ?dif" by (rule diffuser_closed)
  have "apply_circuit ?dif psi = Some (map (\<lambda>a. a - 2 * mean psi) psi)"
    using exec_diffuser_data[of "\<lparr>amps = psi, clbits = [], rand = []\<rparr>" n] assms(2)
    by (simp add: apply_circuit_def)
  with o d show ?thesis by blast
qed

section \<open>The claims\<close>

text \<open>
  Claim C1. For \<open>n = 2\<close>, the marked index \<open>1\<close> and one round, every run of the circuit
  \<open>Grover\<close> builds ends with the amplitudes \<open>[0, -1, 0, 0]\<close>, which give index \<open>1\<close> the
  probability \<open>1\<close>; and 1000 shots, whatever the random numbers in \<open>[0, 1)\<close> drawn for the
  measurements, give the string \<open>01\<close> of index \<open>1\<close> 1000 times.
\<close>

theorem Grover_2_1_1_outcome:
  assumes "length uss = 1000"
    and "\<forall>us\<in>set uss. 2 \<le> length us \<and> (\<forall>u\<in>set us. 0 \<le> u \<and> u < 1)"
  shows "\<exists>qc. Grover 2 [1] 1 = Inr qc \<and>
     (\<forall>us\<in>set uss. statevector qc us = Some [0, - 1, 0, 0]) \<and>
     probabilities [0, - 1, 0, 0] = [0, 1, 0, 0] \<and>
     execute qc uss = replicate 1000 (Some ''01'') \<and>
     get_counts (execute qc uss) ''01'' = 1000 \<and>
     index_of_bitstring ''01'' = 1"
proof -
  have g: "Grover 2 [1] 1 = Inr grover_2_1_1"
    by (simp add: Grover_2_1_1 grover_2_1_1_def)
  have sv: "\<forall>us\<in>set uss. statevector grover_2_1_1 us = Some [0, - 1, 0, 0]"
    using assms(2) run_grover_2_1_1_streams by blast
  have ex: "execute grover_2_1_1 uss = replicate 1000 (Some ''01'')"
    using execute_grover_2_1_1[OF assms(2)] assms(1) by simp
  have cnt: "get_counts (execute grover_2_1_1 uss) ''01'' = 1000"
    unfolding ex get_counts_def by (simp add: count_list_all_equal)
  have idx: "index_of_bitstring ''01'' = 1"
    by (simp add: index_of_bitstring_def)
  from g sv probabilities_final ex cnt idx show ?thesis by blast
qed

theorem Grover_2_1_1_outcome_witness:
  "\<exists>qc. Grover 2 [1] 1 = Inr qc \<and>
     statevector qc [0, 0] = Some [0, - 1, 0, 0] \<and>
     get_counts (execute qc (replicate 1000 [0, 0])) ''01'' = 1000"
proof -
  have "length (replicate 1000 [0, 0 :: real]) = 1000" by simp
  moreover have "\<forall>us\<in>set (replicate 1000 [0, 0 :: real]). 2 \<le> length us \<and> (\<forall>u\<in>set us. 0 \<le> u \<and> u < 1)"
    by simp
  ultimately obtain qc where qc: "Grover 2 [1] 1 = Inr qc"
    "\<forall>us\<in>set (replicate 1000 [0, 0 :: real]). statevector qc us = Some [0, - 1, 0, 0]"
    "get_counts (execute qc (replicate 1000 [0, 0])) ''01'' = 1000"
    using Grover_2_1_1_outcome[of "replicate 1000 [0, 0]"] by blast
  from qc(2) have "statevector qc [0, 0] = Some [0, - 1, 0, 0]" by simp
  with qc(1,3) show ?thesis by blast
qed

text \<open>
  Claim C2. For marked indices in \<open>[0, 2 ^ n)\<close>, \<open>phase_oracle\<close> returns a circuit with one
  operator on all \<open>n\<close> qubits whose \<open>2 ^ n \<times> 2 ^ n\<close> matrix is the identity except that
  the entry \<open>(i, i)\<close> is \<open>-1\<close> for every marked \<open>i\<close>: all entries off the diagonal are \<open>0\<close>,
  the matrix is unitary, exactly \<open>k\<close> diagonal entries are \<open>-1\<close> and the others are \<open>1\<close>, where
  \<open>k\<close> is the number of distinct marked indices.
\<close>

theorem phase_oracle_matrix:
  assumes "\<forall>i\<in>set marked. 0 \<le> i \<and> i < 2 ^ n"
  shows "\<exists>M. phase_oracle n marked nm = Inr (QuantumCircuit n 0 (Some nm) [UnitaryGate M [0..<n]]) \<and>
     length M = 2 ^ n \<and> (\<forall>i<2 ^ n. length (M ! i) = 2 ^ n) \<and>
     (\<forall>i<2 ^ n. \<forall>j<2 ^ n.
        M ! i ! j = (if i = j then (if int i \<in> set marked then - 1 else 1) else 0)) \<and>
     is_unitary M \<and>
     length (filter (\<lambda>i. M ! i ! i = - 1) [0..<2 ^ n]) = card (set marked) \<and>
     length (filter (\<lambda>i. M ! i ! i = 1) [0..<2 ^ n]) = 2 ^ n - card (set marked)"
proof -
  let ?N = "2 ^ n :: nat"
  let ?M = "signed_identity ?N marked"
  have r: "\<forall>i\<in>set marked. 0 \<le> i \<and> i < int ?N" using assms by simp
  have m: "oracle_matrix n marked = Inr ?M" by (rule oracle_matrix_closed[OF assms])
  have c1: "phase_oracle n marked nm = Inr (QuantumCircuit n 0 (Some nm) [UnitaryGate ?M [0..<n]])"
    using m by (simp add: phase_oracle_def qc_unitary_def add_instrs_def)
  have c2: "length ?M = ?N" by (rule length_signed_identity)
  have c3: "\<forall>i<?N. length (?M ! i) = ?N" by (simp add: signed_identity_row)
  have c4: "\<forall>i<?N. \<forall>j<?N.
      ?M ! i ! j = (if i = j then (if int i \<in> set marked then - 1 else 1) else 0)"
    by (simp add: signed_identity_entry)
  have c5: "is_unitary ?M" by (rule signed_identity_unitary)
  have c6: "length (filter (\<lambda>i. ?M ! i ! i = - 1) [0..<?N]) = card (set marked)"
    by (rule signed_identity_count[OF r])
  have "filter (\<lambda>i. ?M ! i ! i = 1) [0..<?N] = filter (\<lambda>i. \<not> ?M ! i ! i = - 1) [0..<?N]"
    by (rule filter_cong) (auto simp: signed_identity_entry)
  then have "length (filter (\<lambda>i. ?M ! i ! i = 1) [0..<?N]) + card (set marked) = ?N"
    using sum_length_filter_compl[of "\<lambda>i. ?M ! i ! i = - 1" "[0..<?N]"] c6 by simp
  then have c7: "length (filter (\<lambda>i. ?M ! i ! i = 1) [0..<?N]) = ?N - card (set marked)"
    by simp
  from c1 c2 c3 c4 c5 c6 c7 show ?thesis by blast
qed

theorem phase_oracle_matrix_witness:
  "\<exists>M. phase_oracle 2 [1] ''Oracle'' =
          Inr (QuantumCircuit 2 0 (Some ''Oracle'') [UnitaryGate M [0..<2]]) \<and>
       M ! 1 ! 1 = - 1 \<and> M ! 0 ! 0 = 1 \<and> M ! 0 ! 1 = 0 \<and> is_unitary M \<and>
       length (filter (\<lambda>i. M ! i ! i = - 1) [0..<2 ^ 2]) = 1"
proof -
  have "\<forall>i\<in>set [1::int]. 0 \<le> i \<and> i < 2 ^ 2" by simp
  from phase_oracle_matrix[OF this, of "''Oracle''"] obtain M where M:
    "phase_oracle 2 [1] ''Oracle'' = Inr (QuantumCircuit 2 0 (Some ''Oracle'') [UnitaryGate M [0..<2]])"
    "\<forall>i<2 ^ 2. \<forall>j<2 ^ 2. M ! i ! j = (if i = j then (if int i \<in> set [1] then - 1 else 1) else 0)"
    "is_unitary M"
    "length (filter (\<lambda>i. M ! i ! i = - 1) [0..<2 ^ 2]) = card (set [1::int])"
    by blast
  have "M ! 1 ! 1 = - 1" "M ! 0 ! 0 = 1" "M ! 0 ! 1 = 0" using M(2) by simp_all
  then show ?thesis using M(1,3,4) by auto
qed


text \<open>
  Claim C4. The claim computes the round count from the number \<open>k\<close> of marked
  elements; \<open>Grover\<close> divides by the length of the list. For three qubits and the list
  \<open>[5, 5]\<close>, which marks the single index \<open>5\<close> and gives the oracle of \<open>[5]\<close>, the call
  without a round count computes \<open>\<lfloor>(\<pi>/4) \<surd>(8 / 2)\<rfloor> = 1\<close> and builds one round, where the
  formula of the claim with \<open>k = 1\<close> gives \<open>\<lfloor>(\<pi>/4) \<surd>8\<rfloor> = 2\<close>.
\<close>

theorem Grover_duplicate_marked_rounds:
  "phase_oracle 3 [5, 5] ''Oracle'' = phase_oracle 3 [5] ''Oracle'' \<and>
   card (set [5, 5 :: int]) = 1 \<and>
   \<lfloor>pi / 4 * sqrt (2 ^ 3 / real (card (set [5, 5 :: int])))\<rfloor> = 2 \<and>
   round_count 3 (length [5, 5 :: int]) = Inr 1 \<and>
   (\<exists>orc dif. phase_oracle 3 [5, 5] ''Oracle'' = Inr orc \<and> diffuser 3 = Inr dif \<and>
      Grover_call 3 [5, 5] None =
        Inr (QuantumCircuit 3 3 None
          (map HGate [0..<3] @ [CircuitInstr orc [0..<3], CircuitInstr dif [0..<3]] @
           map (\<lambda>q. Measure q q) [0..<3])))"
proof -
  have r2: "\<forall>i\<in>set [5, 5 :: int]. 0 \<le> i \<and> i < 2 ^ 3" by simp
  have r1: "\<forall>i\<in>set [5 :: int]. 0 \<le> i \<and> i < 2 ^ 3" by simp
  have "signed_identity (2 ^ 3) [5, 5] = signed_identity (2 ^ 3) [5]"
    by (simp add: signed_identity_def)
  then have "oracle_matrix 3 [5, 5] = oracle_matrix 3 [5]"
    by (simp only: oracle_matrix_closed[OF r2] oracle_matrix_closed[OF r1])
  then have c1: "phase_oracle 3 [5, 5] ''Oracle'' = phase_oracle 3 [5] ''Oracle''"
    by (simp add: phase_oracle_def)
  have c2: "card (set [5, 5 :: int]) = 1" by simp
  have "length [5, 5 :: int] = 2" by simp
  then have c4: "round_count 3 (length [5, 5 :: int]) = Inr 1" by (simp only: round_count_3_2)
  from phase_oracle_ok[OF r2] obtain orc where o: "phase_oracle 3 [5, 5] ''Oracle'' = Inr orc"
    by blast
  from diffuser_ok obtain dif where d: "diffuser 3 = Inr dif" by blast
  have c5: "Grover_call 3 [5, 5] None =
        Inr (QuantumCircuit 3 3 None
          (map HGate [0..<3] @ [CircuitInstr orc [0..<3], CircuitInstr dif [0..<3]] @
           map (\<lambda>q. Measure q q) [0..<3]))"
    using c4 by (simp add: Grover_call_def Grover_rounds_eq[OF o d])
  from c1 c2 floor_one_marked_of_eight c4 o d c5 show ?thesis by blast
qed

text \<open>
  Claim C5 says that an explicit round count of \<open>0\<close> skips the rounds and does not
  start the computation of the round count. The function tests \<open>r == 0\<close>, so the
  literal \<open>0\<close> does start it: for \<open>n = 2\<close> and the marked index \<open>1\<close> the call with
  \<open>r = 0\<close> returns the circuit of the call with \<open>r = 1\<close>, not the circuit without
  rounds.
\<close>

theorem Grover_explicit_zero_counterexample:
  "Grover_call 2 [1] (Some 0) = Grover_call 2 [1] (Some 1) \<and>
   Grover_call 2 [1] (Some 0) \<noteq>
     Inr (QuantumCircuit 2 2 None [HGate 0, HGate 1, Measure 0 0, Measure 1 1])"
  by (simp add: Grover_call_def Grover_2_1_0 Grover_2_1_1)

text \<open>
  Claim C5, amended. An explicit round count of \<open>0\<close> is the same call as one that
  leaves the round count out: both compute \<open>\<lfloor>(\<pi>/4) \<surd>(2 ^ n / k)\<rfloor>\<close> and build that
  many rounds.
\<close>

theorem Grover_explicit_zero_auto:
  assumes "\<forall>i\<in>set marked. 0 \<le> i \<and> i < 2 ^ n" and "marked \<noteq> []"
  shows "Grover_call n marked (Some 0) = Grover_call n marked None \<and>
     (\<exists>orc dif. phase_oracle n marked ''Oracle'' = Inr orc \<and> diffuser n = Inr dif \<and>
        Grover_call n marked (Some 0) =
          Inr (QuantumCircuit n n None
            (map HGate [0..<n] @
             concat (replicate (nat \<lfloor>pi / 4 * sqrt (2 ^ n / real (length marked))\<rfloor>)
               [CircuitInstr orc [0..<n], CircuitInstr dif [0..<n]]) @
             map (\<lambda>q. Measure q q) [0..<n])))"
proof -
  from phase_oracle_ok[OF assms(1)] obtain orc where o: "phase_oracle n marked ''Oracle'' = Inr orc"
    by blast
  from diffuser_ok obtain dif where d: "diffuser n = Inr dif" by blast
  have k: "length marked \<noteq> 0" using assms(2) by simp
  show ?thesis using o d k
    by (simp add: Grover_call_def Grover_rounds_eq[OF o d] round_count_def)
qed

theorem Grover_explicit_zero_auto_witness:
  "Grover_call 2 [1] (Some 0) = Grover_call 2 [1] None \<and>
   (\<exists>orc dif. phase_oracle 2 [1] ''Oracle'' = Inr orc \<and> diffuser 2 = Inr dif \<and>
      Grover_call 2 [1] (Some 0) =
        Inr (QuantumCircuit 2 2 None
          ([HGate 0, HGate 1] @ [CircuitInstr orc [0, 1], CircuitInstr dif [0, 1]] @
           [Measure 0 0, Measure 1 1])))"
proof -
  have f: "\<lfloor>pi / 4 * sqrt (2 ^ 2 / real (length [1::int]))\<rfloor> = 1"
    using round_count_2_1 by (simp add: round_count_def)
  have "\<forall>i\<in>set [1::int]. 0 \<le> i \<and> i < 2 ^ 2" "[1::int] \<noteq> []" by simp_all
  from Grover_explicit_zero_auto[OF this] show ?thesis
    unfolding f by (auto simp: upt_0_2)
qed

text \<open>
  Claim C6 says that the circuit has exactly \<open>r\<close> rounds for every round count \<open>r\<close>. For
  the round count \<open>0\<close> this fails: \<open>Grover\<close> tests \<open>r == 0\<close> and computes the round count,
  so for \<open>n = 2\<close> and the marked index \<open>1\<close> the circuit has one round, not none.
\<close>

theorem Grover_zero_rounds_counterexample:
  "\<exists>orc dif. phase_oracle 2 [1] ''Oracle'' = Inr orc \<and> diffuser 2 = Inr dif \<and>
     Grover 2 [1] 0 =
       Inr (QuantumCircuit 2 2 None
         (map HGate [0..<2] @
          concat (replicate 1 [CircuitInstr orc [0..<2], CircuitInstr dif [0..<2]]) @
          map (\<lambda>q. Measure q q) [0..<2])) \<and>
     Grover 2 [1] 0 \<noteq>
       Inr (QuantumCircuit 2 2 None
         (map HGate [0..<2] @
          concat (replicate 0 [CircuitInstr orc [0..<2], CircuitInstr dif [0..<2]]) @
          map (\<lambda>q. Measure q q) [0..<2]))"
  by (simp add: Grover_2_1_0 Grover_2_1_1 phase_oracle_2_1 diffuser_2_eq upt_0_2)

text \<open>
  Claim C6, amended. For \<open>n \<ge> 1\<close>, a non-empty list of marked indices in \<open>[0, 2 ^ n)\<close>
  and a round count \<open>r \<ge> 0\<close>, the circuit \<open>Grover\<close> builds is, in order: a Hadamard gate
  on each of the \<open>n\<close> qubits; then the rounds, each the oracle for the caller's indices
  followed by the diffuser; then the measurement of qubit \<open>q\<close> into classical bit \<open>q\<close> for
  every \<open>q\<close>, in the order of the qubits. There are exactly \<open>r\<close> rounds for \<open>r \<ge> 1\<close>, and
  \<open>\<lfloor>(\<pi>/4) \<surd>(2 ^ n / k)\<rfloor>\<close> rounds for \<open>r = 0\<close>, with \<open>k\<close> the length of the list.
\<close>

theorem Grover_structure:
  assumes "0 < n" and "\<forall>i\<in>set marked. 0 \<le> i \<and> i < 2 ^ n" and "marked \<noteq> []" and "0 \<le> r"
  shows "\<exists>orc dif. phase_oracle n marked ''Oracle'' = Inr orc \<and> diffuser n = Inr dif \<and>
     Grover n marked r =
       Inr (QuantumCircuit n n None
         (map HGate [0..<n] @
          concat (replicate
            (nat (if r = 0 then \<lfloor>pi / 4 * sqrt (2 ^ n / real (length marked))\<rfloor> else r))
            [CircuitInstr orc [0..<n], CircuitInstr dif [0..<n]]) @
          map (\<lambda>q. Measure q q) [0..<n]))"
proof -
  from phase_oracle_ok[OF assms(2)] obtain orc where o: "phase_oracle n marked ''Oracle'' = Inr orc"
    by blast
  from diffuser_ok obtain dif where d: "diffuser n = Inr dif" by blast
  have k: "length marked \<noteq> 0" using assms(3) by simp
  show ?thesis using o d k
    by (simp add: Grover_rounds_eq[OF o d] round_count_def)
qed

theorem Grover_structure_witness:
  "\<exists>orc dif. phase_oracle 2 [1] ''Oracle'' = Inr orc \<and> diffuser 2 = Inr dif \<and>
     Grover 2 [1] 3 =
       Inr (QuantumCircuit 2 2 None
         ([HGate 0, HGate 1] @
          [CircuitInstr orc [0, 1], CircuitInstr dif [0, 1],
           CircuitInstr orc [0, 1], CircuitInstr dif [0, 1],
           CircuitInstr orc [0, 1], CircuitInstr dif [0, 1]] @
          [Measure 0 0, Measure 1 1]))"
proof -
  have "(0::nat) < 2" "\<forall>i\<in>set [1::int]. 0 \<le> i \<and> i < 2 ^ 2" "[1::int] \<noteq> []" "(0::int) \<le> 3"
    by simp_all
  from Grover_structure[OF this] show ?thesis
    by (simp add: upt_0_2 eval_nat_numeral(2,3))
qed

text \<open>
  Claim C7. The diffuser applied twice is the identity on the amplitude vectors of
  length \<open>2 ^ n\<close>: applying the circuit to its own result gives the vector back, and so
  does the circuit that appends the diffuser twice.
\<close>

theorem diffuser_twice_identity:
  assumes "length psi = 2 ^ n"
  shows "\<exists>dif psi'. diffuser n = Inr dif \<and>
     apply_circuit dif psi = Some psi' \<and> apply_circuit dif psi' = Some psi \<and>
     apply_circuit
       (qc_append (qc_append (QuantumCircuit n 0 None []) dif [0..<n]) dif [0..<n]) psi = Some psi"
proof -
  let ?body = "map HGate [0..<n] @
      [CircuitInstr (QuantumCircuit n 0 (Some ''Oracle'')
         [UnitaryGate (signed_identity (2 ^ n) [0]) [0..<n]]) [0..<n]] @
      map HGate [0..<n]"
  let ?dif = "QuantumCircuit n 0 (Some ''Diffuser'') ?body"
  let ?psi1 = "map (\<lambda>a. a - 2 * mean psi) psi"
  let ?s0 = "\<lparr>amps = psi, clbits = [], rand = []\<rparr>"
  let ?s1 = "\<lparr>amps = ?psi1, clbits = [], rand = []\<rparr>"
  have ne: "psi \<noteq> []" using assms by auto
  have l': "length ?psi1 = 2 ^ n" using assms by simp
  have twice: "map (\<lambda>a. a - 2 * mean ?psi1) ?psi1 = psi" by (rule reflect_twice[OF ne])
  have d: "diffuser n = Inr ?dif" by (rule diffuser_closed)
  have e0: "exec_list n ?body ?s0 = Some ?s1"
    using exec_diffuser_data[of ?s0 n] assms by simp
  have e1: "exec_list n ?body ?s1 = Some ?s0"
    using exec_diffuser_data[of ?s1 n] l' twice by simp
  have a0: "apply_circuit ?dif psi = Some ?psi1"
    using e0 by (simp add: apply_circuit_def)
  have a1: "apply_circuit ?dif ?psi1 = Some psi"
    using e1 by (simp add: apply_circuit_def)
  have a2: "apply_circuit
       (qc_append (qc_append (QuantumCircuit n 0 None []) ?dif [0..<n]) ?dif [0..<n]) psi = Some psi"
    using e0 e1 by (simp add: apply_circuit_def qc_append_def add_instrs_def)
  from d a0 a1 a2 show ?thesis by blast
qed

theorem diffuser_twice_identity_witness:
  "\<exists>dif. diffuser 2 = Inr dif \<and>
     apply_circuit
       (qc_append (qc_append (QuantumCircuit 2 0 None []) dif [0..<2]) dif [0..<2])
       [1 / 2, - (1 / 2), 1 / 2, 1 / 2] = Some [1 / 2, - (1 / 2), 1 / 2, 1 / 2]"
proof -
  have "length [1 / 2, - (1 / 2), 1 / 2, 1 / 2 :: complex] = 2 ^ 2" by simp
  from diffuser_twice_identity[OF this] show ?thesis by blast
qed

text \<open>
  Claim C8. For two qubits, the Hadamard gates alone take the zero state to the
  amplitudes \<open>[1/2, 1/2, 1/2, 1/2]\<close>, and the circuit of \<open>Grover_Step_I\<close> for the marked
  index \<open>1\<close> and one round (Hadamard gates, then the oracle, no diffuser) gives
  \<open>[1/2, -1/2, 1/2, 1/2]\<close>.
\<close>

theorem Grover_Step_I_amplitudes:
  "statevector (qc_h (QuantumCircuit 2 0 None []) [0..<2]) [] = Some [1 / 2, 1 / 2, 1 / 2, 1 / 2] \<and>
   (\<exists>qc. Grover_Step_I 2 [1] 1 = Inr qc \<and> statevector qc [] = Some [1 / 2, - (1 / 2), 1 / 2, 1 / 2])"
  using statevector_h2 statevector_step_I Grover_Step_I_2_1_1 by simp

text \<open>
  Claim C9. With an empty list of marked indices and the round count to be computed,
  \<open>Grover\<close> fails with \<open>ZeroDivisionError\<close>, raised by the quotient \<open>2**n/k\<close>. The function
  has no check of its own for this input: with an explicit round count other than \<open>0\<close>
  the same empty list is accepted and a circuit is returned.
\<close>

theorem Grover_empty_marked:
  "Grover n [] 0 = Inl ZeroDivisionError \<and> Grover_call n [] None = Inl ZeroDivisionError \<and>
   (r \<noteq> 0 \<longrightarrow> (\<exists>qc. Grover n [] r = Inr qc))"
proof -
  have "\<forall>i\<in>set ([]::int list). 0 \<le> i \<and> i < 2 ^ n" by simp
  from phase_oracle_ok[OF this] obtain orc where o: "phase_oracle n [] ''Oracle'' = Inr orc"
    by blast
  from diffuser_ok obtain dif where d: "diffuser n = Inr dif" by blast
  show ?thesis
    by (simp add: Grover_call_def Grover_rounds_eq[OF o d] round_count_def)
qed

theorem Grover_empty_marked_witness:
  "Grover 2 [] 0 = Inl ZeroDivisionError \<and> Grover_call 2 [] None = Inl ZeroDivisionError \<and>
   (\<exists>qc. Grover 2 [] 1 = Inr qc)"
  using Grover_empty_marked[of 2 1] by simp

text \<open>
  Claim C10. A negative round count raises nothing and gives the circuit without
  rounds, the Hadamard gates followed at once by the measurements, whatever the marked
  indices are: the test \<open>r == 0\<close> does not hold and \<open>range(r)\<close> is empty.
\<close>

theorem Grover_negative_rounds:
  "r < 0 \<Longrightarrow> Grover n marked r =
     Inr (QuantumCircuit n n None (map HGate [0..<n] @ map (\<lambda>q. Measure q q) [0..<n]))"
  by (simp add: Grover_def qc_h_def qc_measure_def add_instrs_def measure_all)

theorem Grover_negative_rounds_witness:
  "Grover 2 [1] (- 1) = Inr (QuantumCircuit 2 2 None [HGate 0, HGate 1, Measure 0 0, Measure 1 1]) \<and>
   Grover 2 [] (- 5) = Inr (QuantumCircuit 2 2 None [HGate 0, HGate 1, Measure 0 0, Measure 1 1]) \<and>
   Grover 2 [7] (- 2) = Inr (QuantumCircuit 2 2 None [HGate 0, HGate 1, Measure 0 0, Measure 1 1])"
  using Grover_negative_rounds[of "- 1" 2 "[1]"] Grover_negative_rounds[of "- 5" 2 "[]"]
    Grover_negative_rounds[of "- 2" 2 "[7]"]
  by (simp add: upt_0_2)

end
